theory Spec2Isabelle
  imports Main "HOL-Library.Word"
begin

unbundle bit_operations_syntax

section \<open>Data model of uloop.c\<close>

text \<open>
  The watchers are structures owned by the caller; the loop links them into its lists
  through embedded list heads. A watcher is identified here by a reference (its address),
  the lists hold references, and one memory per watcher type maps a reference to the
  fields of the structure. The fields of a \<open>struct timeval\<close> and the result of
  \<open>tv_diff\<close> are 64-bit signed integers (\<open>time_t\<close>, \<open>suseconds_t\<close> and
  \<open>int64_t\<close> on 64-bit Linux): they are modelled as \<open>int\<close>, and the arithmetic
  on them wraps around at 64 bits, which is written out as \<open>int64\<close>. The order of the
  timeout list depends on it. The other signed integers of the source (PIDs, signal
  numbers, counters, results) are modelled as \<open>int\<close> as well; they are compared,
  stored, or stepped by one, and no property below depends on their overflow. The
  unsigned event and flag words are 32-bit words, the signal bitset is a 64-bit word. The declarations of the watcher
  structures are in uloop.h, which is not part of the sources: the records hold the
  fields that uloop.c uses, and the \<open>flags\<close> field of a watcher of a file descriptor
  is taken to hold the whole word that \<open>uloop_fd_add\<close> stores.
\<close>

record timeval =
  tv_sec :: int
  tv_usec :: int

text \<open>
  A timeout is either a structure of the caller or the local \<open>uloop_global_timer\<close>
  of an activation of \<open>uloop_run_timeout\<close>, told apart by the run depth of that
  activation.
\<close>

datatype timeout_ref = Timeout nat | Global_timer int

record uloop_timeout =
  t_pending :: bool
  t_time :: timeval

record uloop_process =
  p_pending :: bool
  p_pid :: int

datatype sighandler = SIG_DFL | SIG_IGN | Uloop_signal_wake | Uloop_handle_sigint | Handler nat

record sigaction =
  sa_handler :: sighandler
  sa_flags :: int
  sa_mask :: "int set"

record uloop_signal =
  s_pending :: bool
  s_signo :: int
  s_orig :: sigaction

record uloop_fd =
  f_registered :: bool
  f_flags :: "32 word"
  f_eof :: bool
  f_error :: bool

record uloop_fd_event =
  ev_fd :: "nat option"
  ev_events :: "32 word"

record uloop_fd_stack =
  sf_fd :: "nat option"
  sf_events :: "32 word"

text \<open>
  Calls that leave the loop's own code are logged, in order: each invocation of a
  watcher's callback with the arguments it receives, and each call of the backend's
  \<open>uloop_fetch_events\<close> with its timeout. A timeout callback is logged with what it
  can observe of its own watcher at that moment: the \<open>pending\<close> flag and whether the
  watcher is linked.
\<close>

datatype event =
    Timeout_cb timeout_ref bool bool
  | Process_cb nat int
  | Signal_cb nat
  | Fd_cb nat "32 word"
  | Fetch_events int

text \<open>
  The static variables of uloop.c, the memories of the watchers, the kernel's table of
  signal dispositions, the log, and the rest of the world (the kernel and the memory of
  the application), about which the loop knows nothing. \<open>fd_stack\<close> is the chain of
  \<open>struct uloop_fd_stack\<close> frames, innermost first; \<open>cur_fds\<close> is the array of fetched
  events, read at \<open>cur_fd\<close>, with \<open>cur_nfds\<close> entries left.
\<close>

record 'w uloop =
  timeouts :: "timeout_ref list"
  processes :: "nat list"
  signals :: "nat list"
  fd_stack :: "uloop_fd_stack list"
  cur_fds :: "nat \<Rightarrow> uloop_fd_event"
  cur_fd :: nat
  cur_nfds :: int
  uloop_cancelled :: bool
  global_current_uloop_timeout_reached :: bool
  do_sigchld :: bool
  uloop_status :: int
  uloop_run_depth :: int
  timeout_mem :: "timeout_ref \<Rightarrow> uloop_timeout"
  process_mem :: "nat \<Rightarrow> uloop_process"
  signal_mem :: "nat \<Rightarrow> uloop_signal"
  fd_mem :: "nat \<Rightarrow> uloop_fd"
  sigactions :: "int \<Rightarrow> sigaction"
  trace :: "event list"
  world :: 'w

text \<open>
  What uloop.c uses and does not define. System calls act on the world only. The
  backend (\<open>uloop_fetch_events\<close>, \<open>register_poll\<close>, \<open>__uloop_fd_delete\<close>) is compiled
  into uloop.c from a file that is not part of the sources, and the callbacks are code of
  the application: both may change any part of the state, and are taken to return. A
  callback is found through the reference of its watcher: \<open>timeout_cb\<close> and \<open>fd_cb\<close>
  give \<open>None\<close> for a null \<open>cb\<close> field, which the source tests for these two. The
  flag bits come from uloop.h, which is not part of the sources either, and are
  parameters. \<open>shl_overflow n\<close> is what the platform computes for \<open>1u << n\<close> when
  \<open>n\<close> is 32 or more, which C leaves undefined. \<open>sig_valid\<close> tells the signal numbers
  for which \<open>sigaction\<close> reports the disposition, \<open>sig_settable\<close> those for which it
  installs one; for the others the call fails and changes nothing.
\<close>

record 'w uloop_env =
  clock_gettime :: "'w \<Rightarrow> (int \<times> int) \<times> 'w"
  sys_waitpid :: "'w \<Rightarrow> (int \<times> int \<times> bool) \<times> 'w"
  sys_read :: "'w \<Rightarrow> (8 word list) option \<times> 'w"
  sys_set_nonblock :: "'w \<Rightarrow> 'w"
  sig_valid :: "int \<Rightarrow> bool"
  sig_settable :: "int \<Rightarrow> bool"
  shl_overflow :: "nat \<Rightarrow> 32 word"
  uloop_fetch_events :: "int \<Rightarrow> 'w uloop \<Rightarrow> int \<times> 'w uloop"
  register_poll :: "nat \<Rightarrow> 32 word \<Rightarrow> 'w uloop \<Rightarrow> int \<times> 'w uloop"
  backend_fd_delete :: "nat \<Rightarrow> 'w uloop \<Rightarrow> int \<times> 'w uloop"
  uloop_fd_set_cb :: "(nat \<Rightarrow> 32 word \<Rightarrow> 'w uloop \<Rightarrow> 'w uloop) option"
  timeout_cb :: "nat \<Rightarrow> ('w uloop \<Rightarrow> 'w uloop) option"
  process_cb :: "nat \<Rightarrow> int \<Rightarrow> 'w uloop \<Rightarrow> 'w uloop"
  signal_cb :: "nat \<Rightarrow> 'w uloop \<Rightarrow> 'w uloop"
  fd_cb :: "nat \<Rightarrow> (32 word \<Rightarrow> 'w uloop \<Rightarrow> 'w uloop) option"
  ULOOP_READ :: "32 word"
  ULOOP_WRITE :: "32 word"
  ULOOP_EDGE_TRIGGER :: "32 word"
  ULOOP_BLOCKING :: "32 word"
  ULOOP_EVENT_MASK :: "32 word"
  ULOOP_EVENT_BUFFERED :: "32 word"

section \<open>Arithmetic and lists\<close>

text \<open>Division and remainder of C truncate towards zero.\<close>

definition c_div :: "int \<Rightarrow> int \<Rightarrow> int" where
  "c_div a b = sgn a * sgn b * (\<bar>a\<bar> div \<bar>b\<bar>)"

definition c_mod :: "int \<Rightarrow> int \<Rightarrow> int" where
  "c_mod a b = a - b * c_div a b"

text \<open>
  The value that a 64-bit signed integer holds after an operation whose exact result is
  \<open>x\<close>: the result is reduced modulo \<open>2^64\<close> into the range from \<open>-2^63\<close> to
  \<open>2^63 - 1\<close>, which is what the machine computes where C leaves the overflow
  undefined.
\<close>

definition int64 :: "int \<Rightarrow> int" where
  "int64 x = (x + 9223372036854775808) mod 18446744073709551616 - 9223372036854775808"

text \<open>
  \<open>tv_diff\<close>: the two differences, the product and the sum are computed in 64 bits.
\<close>

definition tv_diff :: "timeval \<Rightarrow> timeval \<Rightarrow> int" where
  "tv_diff t1 t2 =
     int64 (int64 (int64 (tv_sec t1 - tv_sec t2) * 1000) +
            c_div (int64 (tv_usec t1 - tv_usec t2)) 1000)"

text \<open>
  The insertion of the three \<open>add\<close> functions: \<open>list_for_each_entry\<close> stops at the
  first entry that satisfies the test and \<open>list_add_tail\<close> links the new entry before
  it, or before the list head (at the tail) when no entry does.
\<close>

fun list_add_before :: "('a \<Rightarrow> bool) \<Rightarrow> 'a \<Rightarrow> 'a list \<Rightarrow> 'a list" where
  "list_add_before later x [] = [x]"
| "list_add_before later x (tmp # rest) =
     (if later tmp then x # tmp # rest else tmp # list_add_before later x rest)"

text \<open>
  \<open>list_del\<close> unlinks an entry. The source calls it on pending watchers only; on an
  entry that is in no list the C code follows stale pointers, and the model leaves the
  list as it is.
\<close>

definition list_del :: "'a \<Rightarrow> 'a list \<Rightarrow> 'a list" where
  "list_del x xs = removeAll x xs"

text \<open>The entry after \<open>x\<close>, or \<open>None\<close> when the list head follows.\<close>

fun list_next :: "'a list \<Rightarrow> 'a \<Rightarrow> 'a option" where
  "list_next [] x = None"
| "list_next (y # ys) x =
     (if y = x then (case ys of [] \<Rightarrow> None | z # zs \<Rightarrow> Some z) else list_next ys x)"

definition log_event :: "event \<Rightarrow> 'w uloop \<Rightarrow> 'w uloop" where
  "log_event ev s = s\<lparr>trace := trace s @ [ev]\<rparr>"

section \<open>Timeouts\<close>

definition uloop_timeout_add :: "'w uloop \<Rightarrow> timeout_ref \<Rightarrow> int \<times> 'w uloop" where
  "uloop_timeout_add s timeout =
     (if t_pending (timeout_mem s timeout) then (- 1, s)
      else (0, s\<lparr>timeouts :=
                   list_add_before
                     (\<lambda>tmp. tv_diff (t_time (timeout_mem s tmp))
                                     (t_time (timeout_mem s timeout)) > 0)
                     timeout (timeouts s),
                 timeout_mem :=
                   (timeout_mem s)(timeout := (timeout_mem s timeout)\<lparr>t_pending := True\<rparr>)\<rparr>))"

definition uloop_timeout_cancel :: "'w uloop \<Rightarrow> timeout_ref \<Rightarrow> int \<times> 'w uloop" where
  "uloop_timeout_cancel s timeout =
     (if \<not> t_pending (timeout_mem s timeout) then (- 1, s)
      else (0, s\<lparr>timeouts := list_del timeout (timeouts s),
                 timeout_mem :=
                   (timeout_mem s)(timeout := (timeout_mem s timeout)\<lparr>t_pending := False\<rparr>)\<rparr>))"

definition uloop_gettime :: "'w uloop_env \<Rightarrow> 'w uloop \<Rightarrow> timeval \<times> 'w uloop" where
  "uloop_gettime e s =
     (case clock_gettime e (world s) of
        ((sec, nsec), w) \<Rightarrow> (\<lparr>tv_sec = sec, tv_usec = c_div nsec 1000\<rparr>, s\<lparr>world := w\<rparr>))"

text \<open>
  \<open>uloop_timeout_set\<close>. \<open>msecs\<close> is an \<open>int\<close>: its quotient and remainder by
  1000 and the product of the remainder with 1000 are within its range, and the
  additions to the fields of the \<open>struct timeval\<close> are computed in 64 bits.
\<close>

definition uloop_timeout_set ::
  "'w uloop_env \<Rightarrow> 'w uloop \<Rightarrow> timeout_ref \<Rightarrow> int \<Rightarrow> int \<times> 'w uloop" where
  "uloop_timeout_set e s timeout msecs =
     (let s1 = (if t_pending (timeout_mem s timeout)
                then snd (uloop_timeout_cancel s timeout) else s);
          (now, s2) = uloop_gettime e s1;
          sec = int64 (tv_sec now + c_div msecs 1000);
          usec = int64 (tv_usec now + c_mod msecs 1000 * 1000);
          time = (if usec > 1000000
                  then \<lparr>tv_sec = int64 (sec + 1), tv_usec = int64 (usec - 1000000)\<rparr>
                  else \<lparr>tv_sec = sec, tv_usec = usec\<rparr>);
          s3 = s2\<lparr>timeout_mem :=
                    (timeout_mem s2)(timeout := (timeout_mem s2 timeout)\<lparr>t_time := time\<rparr>)\<rparr>
      in uloop_timeout_add s3 timeout)"

section \<open>Process watchers\<close>

definition uloop_process_add :: "'w uloop \<Rightarrow> nat \<Rightarrow> int \<times> 'w uloop" where
  "uloop_process_add s p =
     (if p_pending (process_mem s p) then (- 1, s)
      else (0, s\<lparr>processes :=
                   list_add_before
                     (\<lambda>tmp. p_pid (process_mem s tmp) > p_pid (process_mem s p))
                     p (processes s),
                 process_mem :=
                   (process_mem s)(p := (process_mem s p)\<lparr>p_pending := True\<rparr>)\<rparr>))"

definition uloop_process_delete :: "'w uloop \<Rightarrow> nat \<Rightarrow> int \<times> 'w uloop" where
  "uloop_process_delete s p =
     (if \<not> p_pending (process_mem s p) then (- 1, s)
      else (0, s\<lparr>processes := list_del p (processes s),
                 process_mem :=
                   (process_mem s)(p := (process_mem s p)\<lparr>p_pending := False\<rparr>)\<rparr>))"

section \<open>Signal watchers\<close>

text \<open>
  \<open>sigaction(signum, NULL, &old)\<close> and \<open>sigaction(signum, &act, NULL)\<close>. The source
  ignores the result of both calls.
\<close>

definition sigaction_get ::
  "'w uloop_env \<Rightarrow> 'w uloop \<Rightarrow> int \<Rightarrow> sigaction \<Rightarrow> sigaction" where
  "sigaction_get e s signum old = (if sig_valid e signum then sigactions s signum else old)"

definition sigaction_set ::
  "'w uloop_env \<Rightarrow> 'w uloop \<Rightarrow> int \<Rightarrow> sigaction \<Rightarrow> 'w uloop" where
  "sigaction_set e s signum act =
     (if sig_settable e signum then s\<lparr>sigactions := (sigactions s)(signum := act)\<rparr> else s)"

definition uloop_signal_add :: "'w uloop_env \<Rightarrow> 'w uloop \<Rightarrow> nat \<Rightarrow> int \<times> 'w uloop" where
  "uloop_signal_add e s sg =
     (if s_pending (signal_mem s sg) then (- 1, s)
      else
        (let signo = s_signo (signal_mem s sg);
             orig = sigaction_get e s signo (s_orig (signal_mem s sg));
             s1 = s\<lparr>signals :=
                      list_add_before (\<lambda>tmp. s_signo (signal_mem s tmp) > signo)
                        sg (signals s),
                    signal_mem :=
                      (signal_mem s)(sg := (signal_mem s sg)\<lparr>s_pending := True, s_orig := orig\<rparr>)\<rparr>
         in (0, if sa_handler orig \<noteq> Uloop_signal_wake
                then sigaction_set e s1 signo
                       \<lparr>sa_handler = Uloop_signal_wake, sa_flags = 0, sa_mask = {}\<rparr>
                else s1)))"

definition uloop_signal_delete :: "'w uloop_env \<Rightarrow> 'w uloop \<Rightarrow> nat \<Rightarrow> int \<times> 'w uloop" where
  "uloop_signal_delete e s sg =
     (if \<not> s_pending (signal_mem s sg) then (- 1, s)
      else
        (let s1 = s\<lparr>signals := list_del sg (signals s),
                    signal_mem := (signal_mem s)(sg := (signal_mem s sg)\<lparr>s_pending := False\<rparr>)\<rparr>;
             orig = s_orig (signal_mem s sg)
         in (0, if sa_handler orig \<noteq> Uloop_signal_wake
                then sigaction_set e s1 (s_signo (signal_mem s sg)) orig
                else s1)))"


section \<open>Firing timeouts\<close>

definition handle_global_timeout :: "'w uloop \<Rightarrow> 'w uloop" where
  "handle_global_timeout s = s\<lparr>global_current_uloop_timeout_reached := True\<rparr>"

text \<open>
  The \<open>cb\<close> field of a timeout: \<open>uloop_run_timeout\<close> stores \<open>handle_global_timeout\<close>
  in its local timer.
\<close>

definition timeout_cb_of ::
  "'w uloop_env \<Rightarrow> timeout_ref \<Rightarrow> ('w uloop \<Rightarrow> 'w uloop) option" where
  "timeout_cb_of e t =
     (case t of Timeout k \<Rightarrow> timeout_cb e k | Global_timer d \<Rightarrow> Some handle_global_timeout)"

text \<open>
  The loops of the source that run callbacks or system calls need not end: they take a
  bound on the number of iterations, and \<open>None\<close> says that the bound was reached.
\<close>

fun uloop_process_timeouts ::
  "'w uloop_env \<Rightarrow> nat \<Rightarrow> timeval \<Rightarrow> 'w uloop \<Rightarrow> (int \<times> 'w uloop) option" where
  "uloop_process_timeouts e 0 tv s = None"
| "uloop_process_timeouts e (Suc n) tv s =
     (case timeouts s of
        [] \<Rightarrow> Some (- 1, s)
      | t # rest \<Rightarrow>
          (let res = tv_diff (t_time (timeout_mem s t)) tv in
           if res > 0 then Some (res, s)
           else
             (let s1 = snd (uloop_timeout_cancel s t) in
              case timeout_cb_of e t of
                None \<Rightarrow> uloop_process_timeouts e n tv s1
              | Some cb \<Rightarrow>
                  uloop_process_timeouts e n tv
                    (cb (log_event
                           (Timeout_cb t (t_pending (timeout_mem s1 t)) (t \<in> set (timeouts s1)))
                           s1)))))"

section \<open>Reaping children\<close>

text \<open>
  \<open>list_for_each_entry_safe\<close> over the process list for one reaped child. \<open>p\<close> is the
  entry the walk stands on, \<open>None\<close> for the list head. The macro has read the successor
  of \<open>p\<close> before the body runs and reads the successor of that entry after it, so an
  entry that the body or a callback has unlinked in between is followed through a stale
  pointer: the model stops with \<open>None\<close> there.
\<close>

fun process_walk ::
  "'w uloop_env \<Rightarrow> nat \<Rightarrow> int \<Rightarrow> int \<Rightarrow> nat option \<Rightarrow> 'w uloop \<Rightarrow> 'w uloop option" where
  "process_walk e 0 pid ret p s = None"
| "process_walk e (Suc n) pid ret None s = Some s"
| "process_walk e (Suc n) pid ret (Some p) s =
     (if p \<notin> set (processes s) then None
      else
        (let tmp = list_next (processes s) p in
         if p_pid (process_mem s p) < pid then process_walk e n pid ret tmp s
         else if p_pid (process_mem s p) > pid then Some s
         else process_walk e n pid ret tmp
                (process_cb e p ret
                   (log_event (Process_cb p ret) (snd (uloop_process_delete s p))))))"

definition list_first :: "'a list \<Rightarrow> 'a option" where
  "list_first xs = (case xs of [] \<Rightarrow> None | x # rest \<Rightarrow> Some x)"

text \<open>
  \<open>sys_waitpid\<close> is \<open>waitpid(-1, &ret, WNOHANG)\<close>: the result, the status and
  whether \<open>errno\<close> is \<open>EINTR\<close>.
\<close>

fun uloop_handle_processes_loop ::
  "'w uloop_env \<Rightarrow> nat \<Rightarrow> 'w uloop \<Rightarrow> 'w uloop option" where
  "uloop_handle_processes_loop e 0 s = None"
| "uloop_handle_processes_loop e (Suc n) s =
     (case sys_waitpid e (world s) of
        ((pid, ret, eintr), w) \<Rightarrow>
          (let s1 = s\<lparr>world := w\<rparr> in
           if pid < 0 \<and> eintr then uloop_handle_processes_loop e n s1
           else if pid \<le> 0 then Some s1
           else
             (case process_walk e n pid ret (list_first (processes s1)) s1 of
                None \<Rightarrow> None
              | Some s2 \<Rightarrow> uloop_handle_processes_loop e n s2)))"

definition uloop_handle_processes ::
  "'w uloop_env \<Rightarrow> nat \<Rightarrow> 'w uloop \<Rightarrow> 'w uloop option" where
  "uloop_handle_processes e n s = uloop_handle_processes_loop e n (s\<lparr>do_sigchld := False\<rparr>)"

section \<open>The signal bridge\<close>

text \<open>
  \<open>1u << n\<close> is a shift of a 32-bit \<open>unsigned int\<close>; its value is converted to
  \<open>uint64_t\<close> by zero extension before it meets \<open>signums\<close>.
\<close>

definition shl_1u :: "'w uloop_env \<Rightarrow> nat \<Rightarrow> 32 word" where
  "shl_1u e n = (if n < 32 then push_bit n 1 else shl_overflow e n)"

definition set_signo :: "'w uloop_env \<Rightarrow> 64 word \<Rightarrow> int \<Rightarrow> 64 word" where
  "set_signo e signums signo =
     (if signo \<ge> 1 \<and> signo \<le> 64 then signums OR ucast (shl_1u e (nat (signo - 1)))
      else signums)"

definition get_signo :: "'w uloop_env \<Rightarrow> 64 word \<Rightarrow> int \<Rightarrow> bool" where
  "get_signo e signums signo =
     (signo \<ge> 1 \<and> signo \<le> 64 \<and> signums AND ucast (shl_1u e (nat (signo - 1))) \<noteq> 0)"

text \<open>
  The \<open>do\<close> loop of \<open>signal_consume\<close>. \<open>sys_read\<close> is the \<open>read\<close> of the pipe:
  \<open>None\<close> for a negative result, else the bytes read, at most the 32 of \<open>buf\<close>.
\<close>

fun signal_consume_read ::
  "'w uloop_env \<Rightarrow> nat \<Rightarrow> 64 word \<Rightarrow> 'w \<Rightarrow> (64 word \<times> 'w) option" where
  "signal_consume_read e 0 signums w = None"
| "signal_consume_read e (Suc n) signums w =
     (case sys_read e w of
        (None, w1) \<Rightarrow> Some (signums, w1)
      | (Some bytes, w1) \<Rightarrow>
          (let buf = take 32 bytes;
               signums1 = foldl (\<lambda>acc b. set_signo e acc (uint b)) signums buf
           in if length buf > 0 then signal_consume_read e n signums1 w1
              else Some (signums1, w1)))"

fun signal_walk ::
  "'w uloop_env \<Rightarrow> nat \<Rightarrow> 64 word \<Rightarrow> nat option \<Rightarrow> 'w uloop \<Rightarrow> 'w uloop option" where
  "signal_walk e 0 signums usig s = None"
| "signal_walk e (Suc n) signums None s = Some s"
| "signal_walk e (Suc n) signums (Some usig) s =
     (if usig \<notin> set (signals s) then None
      else
        (let usig_next = list_next (signals s) usig in
         if get_signo e signums (s_signo (signal_mem s usig))
         then signal_walk e n signums usig_next
                (signal_cb e usig (log_event (Signal_cb usig) s))
         else signal_walk e n signums usig_next s))"

text \<open>
  \<open>signal_consume\<close> is the callback that \<open>waker_init\<close> registers for the read end
  of the pipe; its arguments, the watcher and the events, are not used but for the
  descriptor to read from.
\<close>

definition signal_consume :: "'w uloop_env \<Rightarrow> nat \<Rightarrow> 'w uloop \<Rightarrow> 'w uloop option" where
  "signal_consume e n s =
     (case signal_consume_read e n 0 (world s) of
        None \<Rightarrow> None
      | Some (signums, w) \<Rightarrow>
          signal_walk e n signums (list_first (signals s)) (s\<lparr>world := w\<rparr>))"

section \<open>File descriptors\<close>

text \<open>The number of entries of the array \<open>cur_fds\<close> of fetched events.\<close>

definition ULOOP_MAX_EVENTS :: int where
  "ULOOP_MAX_EVENTS = 10"

text \<open>
  The walk of \<open>uloop_fd_stack_event\<close> over the frames. \<open>events\<close> is an \<open>int\<close> in the
  source and is given an \<open>unsigned int\<close> by \<open>uloop_run_events\<close>: the test
  \<open>events < 0\<close> reads the word as signed.
\<close>

fun fd_stack_mark ::
  "nat \<Rightarrow> 32 word \<Rightarrow> 32 word \<Rightarrow> uloop_fd_stack list \<Rightarrow> bool \<times> uloop_fd_stack list" where
  "fd_stack_mark fd events buffered [] = (False, [])"
| "fd_stack_mark fd events buffered (cur # rest) =
     (if sf_fd cur \<noteq> Some fd
      then (case fd_stack_mark fd events buffered rest of (r, rest1) \<Rightarrow> (r, cur # rest1))
      else if sint events < 0 then (True, cur\<lparr>sf_fd := None\<rparr> # rest)
      else (True, cur\<lparr>sf_events := sf_events cur OR events OR buffered\<rparr> # rest))"

definition uloop_fd_stack_event ::
  "'w uloop_env \<Rightarrow> 'w uloop \<Rightarrow> nat \<Rightarrow> 32 word \<Rightarrow> bool \<times> 'w uloop" where
  "uloop_fd_stack_event e s fd events =
     (if f_flags (fd_mem s fd) AND ULOOP_EDGE_TRIGGER e = 0 then (False, s)
      else (case fd_stack_mark fd events (ULOOP_EVENT_BUFFERED e) (fd_stack s) of
              (r, st) \<Rightarrow> (r, s\<lparr>fd_stack := st\<rparr>)))"

text \<open>
  \<open>uloop_fd_delete\<close>. The first loop clears the entries of the fetched events that are
  left for this watcher. \<open>cur_fds\<close> has \<open>ULOOP_MAX_EVENTS\<close> entries in the source; the
  model gives the array no end.
\<close>

definition uloop_fd_delete :: "'w uloop_env \<Rightarrow> 'w uloop \<Rightarrow> nat \<Rightarrow> int \<times> 'w uloop" where
  "uloop_fd_delete e s fd =
     (let s1 = s\<lparr>cur_fds :=
                  fold (\<lambda>i a. if ev_fd (a (cur_fd s + i)) \<noteq> Some fd then a
                              else a(cur_fd s + i := (a (cur_fd s + i))\<lparr>ev_fd := None\<rparr>))
                    [0..<nat (cur_nfds s)] (cur_fds s)\<rparr>
      in if \<not> f_registered (fd_mem s1 fd) then (0, s1)
         else
           (let s2 = (case uloop_fd_set_cb e of None \<Rightarrow> s1 | Some hook \<Rightarrow> hook fd 0 s1);
                s3 = s2\<lparr>fd_mem := (fd_mem s2)(fd := (fd_mem s2 fd)\<lparr>f_registered := False\<rparr>)\<rparr>;
                s4 = snd (uloop_fd_stack_event e s3 fd (- 1));
                (ret, s5) = backend_fd_delete e fd s4
            in (ret, s5\<lparr>fd_mem := (fd_mem s5)(fd := (fd_mem s5 fd)\<lparr>f_flags := 0\<rparr>)\<rparr>)))"

text \<open>
  \<open>uloop_fd_add\<close>. \<open>sys_set_nonblock\<close> is the pair of \<open>fcntl\<close> calls that set
  \<open>O_NONBLOCK\<close> on the descriptor of the watcher.
\<close>

definition uloop_fd_add ::
  "'w uloop_env \<Rightarrow> 'w uloop \<Rightarrow> nat \<Rightarrow> 32 word \<Rightarrow> int \<times> 'w uloop" where
  "uloop_fd_add e s sock flags =
     (if flags AND (ULOOP_READ e OR ULOOP_WRITE e) = 0 then uloop_fd_delete e s sock
      else
        (let s1 = (if \<not> f_registered (fd_mem s sock) \<and> flags AND ULOOP_BLOCKING e = 0
                   then s\<lparr>world := sys_set_nonblock e (world s)\<rparr> else s);
             (ret, s2) = register_poll e sock flags s1
         in if ret < 0 then (ret, s2)
            else
              (let s3 = (case uloop_fd_set_cb e of None \<Rightarrow> s2 | Some hook \<Rightarrow> hook sock flags s2)
               in (ret, s3\<lparr>fd_mem := (fd_mem s3)
                           (sock := \<lparr>f_registered = True, f_flags = flags,
                                     f_eof = False, f_error = False\<rparr>)\<rparr>))))"

text \<open>
  The \<open>do\<close> loop of \<open>uloop_run_events\<close> around the callback. \<open>stack_cur\<close> is the
  innermost frame when the loop is entered and when the callback returns: the functions
  of the loop leave the chain as long as they found it.
\<close>

fun uloop_fd_cb_loop ::
  "'w uloop_env \<Rightarrow> nat \<Rightarrow> nat \<Rightarrow> (32 word \<Rightarrow> 'w uloop \<Rightarrow> 'w uloop) \<Rightarrow> 32 word \<Rightarrow>
     'w uloop \<Rightarrow> 'w uloop option" where
  "uloop_fd_cb_loop e 0 fd cb events s = None"
| "uloop_fd_cb_loop e (Suc n) fd cb events s =
     (case fd_stack s of
        [] \<Rightarrow> None
      | stack_cur # next \<Rightarrow>
          (let s1 = cb events
                      (log_event (Fd_cb fd events)
                         (s\<lparr>fd_stack := stack_cur\<lparr>sf_events := 0\<rparr> # next\<rparr>))
           in case fd_stack s1 of
                [] \<Rightarrow> None
              | stack_cur1 # next1 \<Rightarrow>
                  (let events1 = sf_events stack_cur1 AND ULOOP_EVENT_MASK e in
                   if sf_fd stack_cur1 \<noteq> None \<and> events1 \<noteq> 0
                   then uloop_fd_cb_loop e n fd cb events1 s1
                   else Some s1)))"

text \<open>The \<open>while\<close> loop of \<open>uloop_run_events\<close>.\<close>

fun uloop_run_events_while :: "'w uloop_env \<Rightarrow> nat \<Rightarrow> 'w uloop \<Rightarrow> 'w uloop option" where
  "uloop_run_events_while e 0 s = None"
| "uloop_run_events_while e (Suc n) s =
     (if \<not> cur_nfds s > 0 then Some s
      else
        (let cur = cur_fds s (cur_fd s);
             s1 = s\<lparr>cur_fd := cur_fd s + 1, cur_nfds := cur_nfds s - 1\<rparr>
         in case ev_fd cur of
              None \<Rightarrow> uloop_run_events_while e n s1
            | Some fd \<Rightarrow>
                (case fd_cb e fd of
                   None \<Rightarrow> uloop_run_events_while e n s1
                 | Some cb \<Rightarrow>
                     (case uloop_fd_stack_event e s1 fd (ev_events cur) of
                        (True, s2) \<Rightarrow> uloop_run_events_while e n s2
                      | (False, s2) \<Rightarrow>
                          (case uloop_fd_cb_loop e n fd cb (ev_events cur)
                                  (s2\<lparr>fd_stack :=
                                        \<lparr>sf_fd = Some fd, sf_events = 0\<rparr> # fd_stack s2\<rparr>) of
                             None \<Rightarrow> None
                           | Some s3 \<Rightarrow> Some (s3\<lparr>fd_stack := tl (fd_stack s3)\<rparr>))))))"

definition uloop_run_events ::
  "'w uloop_env \<Rightarrow> nat \<Rightarrow> int \<Rightarrow> 'w uloop \<Rightarrow> 'w uloop option" where
  "uloop_run_events e n timeout s =
     uloop_run_events_while e n
       (if cur_nfds s = 0
        then (case uloop_fetch_events e timeout
                     (log_event (Fetch_events timeout) (s\<lparr>cur_fd := 0\<rparr>)) of
                (r, s1) \<Rightarrow> s1\<lparr>cur_nfds := (if r < 0 then 0 else r)\<rparr>)
        else s)"

section \<open>The main loop\<close>

text \<open>
  One pass through the body of the \<open>do\<close> loop of \<open>uloop_run_timeout\<close>; the result
  says whether the loop goes on. \<open>uloop_run_dispatch\<close> is its last statement.
\<close>

definition uloop_run_dispatch ::
  "'w uloop_env \<Rightarrow> nat \<Rightarrow> int \<Rightarrow> 'w uloop \<Rightarrow> 'w uloop option" where
  "uloop_run_dispatch e n next_time s =
     (if next_time \<ge> 0 then uloop_run_events e n next_time s else Some s)"

definition uloop_run_iteration ::
  "'w uloop_env \<Rightarrow> nat \<Rightarrow> 'w uloop \<Rightarrow> (bool \<times> 'w uloop) option" where
  "uloop_run_iteration e n s =
     (case (if do_sigchld s then uloop_handle_processes e n s else Some s) of
        None \<Rightarrow> None
      | Some s1 \<Rightarrow>
          if uloop_cancelled s1 then Some (False, s1)
          else
            (case uloop_gettime e s1 of
               (tv, s2) \<Rightarrow>
                 (case uloop_process_timeouts e n tv s2 of
                    None \<Rightarrow> None
                  | Some (next_time, s3) \<Rightarrow>
                      if uloop_cancelled s3 then Some (False, s3)
                      else
                        (case uloop_run_dispatch e n next_time s3 of
                           None \<Rightarrow> None
                         | Some s4 \<Rightarrow>
                             Some (\<not> uloop_cancelled s4 \<and>
                                   \<not> global_current_uloop_timeout_reached s4, s4)))))"

fun uloop_run_timeout_loop :: "'w uloop_env \<Rightarrow> nat \<Rightarrow> 'w uloop \<Rightarrow> 'w uloop option" where
  "uloop_run_timeout_loop e 0 s = None"
| "uloop_run_timeout_loop e (Suc n) s =
     (case uloop_run_iteration e n s of
        None \<Rightarrow> None
      | Some (again, s1) \<Rightarrow> if again then uloop_run_timeout_loop e n s1 else Some s1)"

definition uloop_run_timeout ::
  "'w uloop_env \<Rightarrow> nat \<Rightarrow> int \<Rightarrow> 'w uloop \<Rightarrow> (int \<times> 'w uloop) option" where
  "uloop_run_timeout e n timeout s =
     (let s1 = s\<lparr>uloop_run_depth := uloop_run_depth s + 1\<rparr>;
          s2 = (if timeout \<ge> 0
                then snd (uloop_timeout_set e s1 (Global_timer (uloop_run_depth s1)) timeout)
                else s1);
          s3 = s2\<lparr>uloop_status := 0, global_current_uloop_timeout_reached := False\<rparr>
      in case uloop_run_timeout_loop e n s3 of
           None \<Rightarrow> None
         | Some s4 \<Rightarrow>
             Some (uloop_status s4,
                   s4\<lparr>global_current_uloop_timeout_reached := False,
                      uloop_run_depth := uloop_run_depth s4 - 1\<rparr>))"

section \<open>Invariants of the lists\<close>

text \<open>
  The deadline of a timeout, and the deadline as a number of microseconds, which is the
  order of deadlines that the specification speaks of.
\<close>

definition deadline :: "'w uloop \<Rightarrow> timeout_ref \<Rightarrow> timeval" where
  "deadline s t = t_time (timeout_mem s t)"

definition tv_usecs :: "timeval \<Rightarrow> int" where
  "tv_usecs tv = tv_sec tv * 1000000 + tv_usec tv"

text \<open>
  The order that the timeout list has: no timeout stands before one that \<open>tv_diff\<close>
  puts earlier, that is, whose deadline is earlier by a whole millisecond or more.
\<close>

definition timeouts_ordered :: "'w uloop \<Rightarrow> bool" where
  "timeouts_ordered s =
     sorted_wrt (\<lambda>a b. tv_diff (deadline s a) (deadline s b) \<le> 0) (timeouts s)"

definition timeouts_linked :: "'w uloop \<Rightarrow> bool" where
  "timeouts_linked s =
     (distinct (timeouts s) \<and> (\<forall>t. t_pending (timeout_mem s t) = (t \<in> set (timeouts s))))"

text \<open>
  A time whose seconds and microseconds are within \<open>2^52\<close> of 0. \<open>tv_diff\<close> of two
  such times does not overflow: the difference of the seconds is within \<open>2^53\<close>, and
  1000 times that is within \<open>2^63\<close>. \<open>timeouts_in_range\<close> says that the
  deadlines of the linked timeouts are all in this range, and it is part of the
  invariant \<open>timeout_inv\<close> of the timeout list.
\<close>

definition tv_in_range :: "timeval \<Rightarrow> bool" where
  "tv_in_range tv =
     (\<bar>tv_sec tv\<bar> \<le> 4503599627370496 \<and> \<bar>tv_usec tv\<bar> \<le> 4503599627370496)"

definition timeouts_in_range :: "'w uloop \<Rightarrow> bool" where
  "timeouts_in_range s = list_all (\<lambda>t. tv_in_range (deadline s t)) (timeouts s)"

definition timeout_inv :: "'w uloop \<Rightarrow> bool" where
  "timeout_inv s = (timeouts_ordered s \<and> timeouts_linked s \<and> timeouts_in_range s)"

text \<open>\<open>a\<close> stands before \<open>b\<close> in the list.\<close>

definition precedes :: "'a list \<Rightarrow> 'a \<Rightarrow> 'a \<Rightarrow> bool" where
  "precedes xs a b = (b \<in> set (tl (dropWhile (\<lambda>x. x \<noteq> a) xs)))"

text \<open>
  The operations on timeouts, as a caller (or a callback) strings them together:
  store a deadline in a timeout that is not pending and add it, set a timeout to fire
  after some milliseconds, cancel a timeout, and fire what has expired, which is what
  \<open>uloop_run_timeout\<close> does once per iteration with the time it has just read.
\<close>

datatype timeout_op =
    Op_add timeout_ref timeval
  | Op_set timeout_ref int
  | Op_cancel timeout_ref
  | Op_fire

fun apply_timeout_op ::
  "'w uloop_env \<Rightarrow> nat \<Rightarrow> timeout_op \<Rightarrow> 'w uloop \<Rightarrow> 'w uloop option" where
  "apply_timeout_op e n (Op_add t tv) s =
     Some (snd (uloop_timeout_add
       (if t_pending (timeout_mem s t) then s
        else s\<lparr>timeout_mem := (timeout_mem s)(t := (timeout_mem s t)\<lparr>t_time := tv\<rparr>)\<rparr>) t))"
| "apply_timeout_op e n (Op_set t msecs) s = Some (snd (uloop_timeout_set e s t msecs))"
| "apply_timeout_op e n (Op_cancel t) s = Some (snd (uloop_timeout_cancel s t))"
| "apply_timeout_op e n Op_fire s =
     (case uloop_gettime e s of
        (tv, s1) \<Rightarrow> map_option snd (uloop_process_timeouts e n tv s1))"

fun apply_timeout_ops ::
  "'w uloop_env \<Rightarrow> nat \<Rightarrow> timeout_op list \<Rightarrow> 'w uloop \<Rightarrow> 'w uloop option" where
  "apply_timeout_ops e n [] s = Some s"
| "apply_timeout_ops e n (x # xs) s =
     (case apply_timeout_op e n x s of
        None \<Rightarrow> None
      | Some s1 \<Rightarrow> apply_timeout_ops e n xs s1)"

text \<open>
  The arguments of an operation are in range: the deadline that \<open>Op_add\<close> stores is
  within \<open>2^52\<close>, and the milliseconds of \<open>Op_set\<close> are a 32-bit \<open>int\<close>. The
  monotonic clock is in range: its seconds are within \<open>2^51\<close> of 0 and its nanoseconds
  are those of a \<open>struct timespec\<close>, from 0 to 999999999.
\<close>

fun op_in_range :: "timeout_op \<Rightarrow> bool" where
  "op_in_range (Op_add t tv) = tv_in_range tv"
| "op_in_range (Op_set t msecs) = (- 2147483648 \<le> msecs \<and> msecs \<le> 2147483647)"
| "op_in_range (Op_cancel t) = True"
| "op_in_range Op_fire = True"

definition clock_in_range :: "'w uloop_env \<Rightarrow> bool" where
  "clock_in_range e =
     (\<forall>w. \<bar>fst (fst (clock_gettime e w))\<bar> \<le> 2251799813685248 \<and>
          0 \<le> snd (fst (clock_gettime e w)) \<and> snd (fst (clock_gettime e w)) < 1000000000)"

text \<open>Every timeout callback of the application keeps the property \<open>P\<close> of the state.\<close>

definition callbacks_keep :: "'w uloop_env \<Rightarrow> ('w uloop \<Rightarrow> bool) \<Rightarrow> bool" where
  "callbacks_keep e P = (\<forall>k cb s. timeout_cb e k = Some cb \<longrightarrow> P s \<longrightarrow> P (cb s))"

text \<open>The timeouts at the head of the list that \<open>uloop_process_timeouts\<close> fires.\<close>

definition expired :: "'w uloop \<Rightarrow> timeval \<Rightarrow> timeout_ref \<Rightarrow> bool" where
  "expired s tv t = (tv_diff (deadline s t) tv \<le> 0)"

text \<open>
  Firing in the words of the specification. While the timeout at the head of the list has
  a deadline for which \<open>tv_diff\<close> with the sampled time is not positive, it is taken
  off the list, its \<open>pending\<close> flag is cleared, and then its callback, if it has one,
  is invoked, for a timeout that is neither pending nor linked; the next timeout looked at
  is the head of the list as the callback has left it. The result is \<open>tv_diff\<close> of the
  first head for which it is positive, or -1 when the list is empty. The function gives
  the timeouts fired, in the order of firing, the result and the state.
\<close>

fun spec_process_timeouts ::
  "'w uloop_env \<Rightarrow> nat \<Rightarrow> timeval \<Rightarrow> 'w uloop \<Rightarrow>
     (timeout_ref list \<times> int \<times> 'w uloop) option" where
  "spec_process_timeouts e 0 tv s = None"
| "spec_process_timeouts e (Suc n) tv s =
     (case timeouts s of
        [] \<Rightarrow> Some ([], - 1, s)
      | t # rest \<Rightarrow>
          if tv_diff (deadline s t) tv > 0 then Some ([], tv_diff (deadline s t) tv, s)
          else
            (let s1 = s\<lparr>timeouts := rest,
                        timeout_mem :=
                          (timeout_mem s)(t := (timeout_mem s t)\<lparr>t_pending := False\<rparr>)\<rparr>;
                 s2 = (case timeout_cb_of e t of
                         None \<Rightarrow> s1
                       | Some cb \<Rightarrow> cb (log_event (Timeout_cb t False False) s1))
             in map_option (\<lambda>(ts, r, s'). (t # ts, r, s'))
                  (spec_process_timeouts e n tv s2)))"

text \<open>
  The timeout callbacks of the application leave the timeouts alone: they change neither
  the list nor a timeout, and run nothing that is logged.
\<close>

definition callbacks_leave_timeouts :: "'w uloop_env \<Rightarrow> bool" where
  "callbacks_leave_timeouts e =
     (\<forall>k cb s. timeout_cb e k = Some cb \<longrightarrow>
        timeouts (cb s) = timeouts s \<and> timeout_mem (cb s) = timeout_mem s \<and>
        trace (cb s) = trace s)"





text \<open>
  The backend's \<open>__uloop_fd_delete\<close> and the hook \<open>uloop_fd_set_cb\<close> leave the
  chain of frames alone, and the hook leaves the watchers of file descriptors alone.
\<close>

definition backend_leaves_stack :: "'w uloop_env \<Rightarrow> bool" where
  "backend_leaves_stack e =
     ((\<forall>fd s. fd_stack (snd (backend_fd_delete e fd s)) = fd_stack s) \<and>
      (\<forall>hook fd flags s. uloop_fd_set_cb e = Some hook \<longrightarrow>
         fd_stack (hook fd flags s) = fd_stack s \<and> fd_mem (hook fd flags s) = fd_mem s))"

text \<open>
  The backend's \<open>uloop_fetch_events\<close> reports no more events than the array
  \<open>cur_fds\<close> holds and runs nothing that is logged. The callbacks of the watchers of
  file descriptors do not run the loop themselves: they run nothing that is logged, and
  no event is folded into a frame while they run (they may delete watchers, which marks
  frames).
\<close>

definition dispatch_quiet :: "'w uloop_env \<Rightarrow> bool" where
  "dispatch_quiet e =
     ((\<forall>timeout s. fst (uloop_fetch_events e timeout s) \<le> ULOOP_MAX_EVENTS \<and>
         trace (snd (uloop_fetch_events e timeout s)) = trace s) \<and>
      (\<forall>f cb ev s. fd_cb e f = Some cb \<longrightarrow>
         trace (cb ev s) = trace s \<and>
         map sf_events (fd_stack (cb ev s)) = map sf_events (fd_stack s)))"

text \<open>
  The callback of the timeout \<open>g\<close> has been logged. The timeout \<open>g\<close> is held: it is
  pending and linked in the timeout list, unless its callback has been logged. The
  callbacks of the application and the backend's \<open>uloop_fetch_events\<close> keep a property
  \<open>P\<close> of the state.
\<close>

definition timer_fired :: "timeout_ref \<Rightarrow> event list \<Rightarrow> bool" where
  "timer_fired g tr =
     list_ex (\<lambda>ev. case ev of Timeout_cb t a b \<Rightarrow> t = g | _ \<Rightarrow> False) tr"

definition timer_held :: "timeout_ref \<Rightarrow> 'w uloop \<Rightarrow> bool" where
  "timer_held g s =
     ((t_pending (timeout_mem s g) \<and> g \<in> set (timeouts s)) \<or> timer_fired g (trace s))"

definition env_keeps :: "'w uloop_env \<Rightarrow> ('w uloop \<Rightarrow> bool) \<Rightarrow> bool" where
  "env_keeps e P =
     ((\<forall>k cb s. timeout_cb e k = Some cb \<longrightarrow> P s \<longrightarrow> P (cb s)) \<and>
      (\<forall>p ret s. P s \<longrightarrow> P (process_cb e p ret s)) \<and>
      (\<forall>f cb ev s. fd_cb e f = Some cb \<longrightarrow> P s \<longrightarrow> P (cb ev s)) \<and>
      (\<forall>timeout s. P s \<longrightarrow> P (snd (uloop_fetch_events e timeout s))))"

section \<open>Example states\<close>

text \<open>
  The state of a process that has registered nothing: the static variables as uloop.c
  initialises them, no watcher pending and every signal at its default disposition.
\<close>

definition initial_state :: "'w \<Rightarrow> 'w uloop" where
  "initial_state w =
     \<lparr>timeouts = [], processes = [], signals = [], fd_stack = [],
      cur_fds = (\<lambda>i. \<lparr>ev_fd = None, ev_events = 0\<rparr>), cur_fd = 0, cur_nfds = 0,
      uloop_cancelled = False, global_current_uloop_timeout_reached = False,
      do_sigchld = False, uloop_status = 0, uloop_run_depth = 0,
      timeout_mem = (\<lambda>t. \<lparr>t_pending = False, t_time = \<lparr>tv_sec = 0, tv_usec = 0\<rparr>\<rparr>),
      process_mem = (\<lambda>p. \<lparr>p_pending = False, p_pid = 0\<rparr>),
      signal_mem = (\<lambda>g. \<lparr>s_pending = False, s_signo = 0,
                          s_orig = \<lparr>sa_handler = SIG_DFL, sa_flags = 0, sa_mask = {}\<rparr>\<rparr>),
      fd_mem = (\<lambda>f. \<lparr>f_registered = False, f_flags = 0, f_eof = False, f_error = False\<rparr>),
      sigactions = (\<lambda>n. \<lparr>sa_handler = SIG_DFL, sa_flags = 0, sa_mask = {}\<rparr>),
      trace = [], world = w\<rparr>"

text \<open>
  An environment in which nothing happens: the clock stands at 0, there is no child and
  no byte in the pipe, the backend reports no event, and no watcher has a callback that
  does anything. The world is the list of the results still to come from the system
  call or backend that an example replaces. The flag bits are those of the uloop.h of
  libubox.
\<close>

definition quiet_env :: "'a list uloop_env" where
  "quiet_env =
     \<lparr>clock_gettime = (\<lambda>w. ((0, 0), w)),
      sys_waitpid = (\<lambda>w. ((0, 0, False), w)),
      sys_read = (\<lambda>w. (None, w)),
      sys_set_nonblock = (\<lambda>w. w),
      sig_valid = (\<lambda>n. 1 \<le> n \<and> n \<le> 64),
      sig_settable = (\<lambda>n. 1 \<le> n \<and> n \<le> 64 \<and> n \<noteq> 9 \<and> n \<noteq> 19),
      shl_overflow = (\<lambda>n. 0),
      uloop_fetch_events = (\<lambda>timeout s. (0, s)),
      register_poll = (\<lambda>fd flags s. (0, s)),
      backend_fd_delete = (\<lambda>fd s. (0, s)),
      uloop_fd_set_cb = None,
      timeout_cb = (\<lambda>t. None),
      process_cb = (\<lambda>p ret s. s),
      signal_cb = (\<lambda>g s. s),
      fd_cb = (\<lambda>f. None),
      ULOOP_READ = 1, ULOOP_WRITE = 2, ULOOP_EDGE_TRIGGER = 4, ULOOP_BLOCKING = 8,
      ULOOP_EVENT_MASK = 3, ULOOP_EVENT_BUFFERED = 16\<rparr>"

text \<open>One timeout, one process watcher and one signal watcher (for signal 10) pending.\<close>

definition busy_state :: "nat list uloop" where
  "busy_state =
     (let s0 = initial_state [];
          s1 = snd (uloop_timeout_add s0 (Timeout 0));
          s2 = snd (uloop_process_add s1 0);
          s3 = s2\<lparr>signal_mem := (signal_mem s2)(0 := (signal_mem s2 0)\<lparr>s_signo := 10\<rparr>)\<rparr>
      in snd (uloop_signal_add quiet_env s3 0))"

text \<open>
  A third party installs its own handler for signal 10 while the watcher of
  \<open>busy_state\<close> is registered.
\<close>

definition third_party_state :: "nat list uloop" where
  "third_party_state =
     busy_state\<lparr>sigactions := (sigactions busy_state)
       (10 := \<lparr>sa_handler = Handler 7, sa_flags = 0, sa_mask = {}\<rparr>)\<rparr>"

text \<open>
  The pipe of the signal bridge: the world is the list of the chunks that the next calls
  of \<open>read\<close> return, after which \<open>read\<close> fails (the pipe is empty and does not
  block). \<open>ub\<close> is the value of the shifts that C leaves undefined.
\<close>

definition pipe_env :: "(nat \<Rightarrow> 32 word) \<Rightarrow> 8 word list list uloop_env" where
  "pipe_env ub =
     quiet_env\<lparr>sys_read := (\<lambda>w. case w of [] \<Rightarrow> (None, []) | chunk # rest \<Rightarrow> (Some chunk, rest)),
               shl_overflow := ub\<rparr>"

text \<open>Signal 40 has been written to the pipe once, and one watcher waits for it.\<close>

definition signal40_state :: "8 word list list uloop" where
  "signal40_state =
     (let s0 = initial_state [[40]];
          s1 = s0\<lparr>signal_mem := (signal_mem s0)(0 := (signal_mem s0 0)\<lparr>s_signo := 40\<rparr>)\<rparr>
      in snd (uloop_signal_add (pipe_env (\<lambda>n. 0)) s1 0))"

text \<open>A watcher of a file descriptor, registered for \<open>ULOOP_READ\<close>.\<close>

definition fd_state :: "nat list uloop" where
  "fd_state = snd (uloop_fd_add quiet_env (initial_state []) 0 1)"

text \<open>
  The callback of timeout 0 sets its timeout again, to fire 100 ms later; the other
  timeouts have no callback.
\<close>

definition rearm_env :: "nat list uloop_env" where
  "rearm_env =
     quiet_env\<lparr>timeout_cb :=
       (\<lambda>k. if k = 0 then Some (\<lambda>s. snd (uloop_timeout_set quiet_env s (Timeout 0) 100))
            else None)\<rparr>"

text \<open>
  Timeout 0 is added with a deadline of 500 microseconds, timeout 1 with a deadline of
  100 microseconds and timeout 2 is set to 5 ms from now; then the loop fires what has
  expired, and timeout 1 is cancelled.
\<close>

definition example_ops :: "timeout_op list" where
  "example_ops =
     [Op_add (Timeout 0) \<lparr>tv_sec = 0, tv_usec = 500\<rparr>,
      Op_add (Timeout 1) \<lparr>tv_sec = 0, tv_usec = 100\<rparr>,
      Op_set (Timeout 2) 5, Op_fire, Op_cancel (Timeout 1)]"

text \<open>
  Three pending timeouts, with deadlines 500 microseconds, 100 microseconds and 5 ms, in
  the order of the list; an environment in which every timeout has a callback that does
  nothing; and the time 0.
\<close>

definition three_timeouts_state :: "nat list uloop" where
  "three_timeouts_state =
     (case apply_timeout_ops quiet_env 0 (take 3 example_ops) (initial_state []) of
        None \<Rightarrow> initial_state []
      | Some s \<Rightarrow> s)"

definition idle_cb_env :: "nat list uloop_env" where
  "idle_cb_env = quiet_env\<lparr>timeout_cb := (\<lambda>k. Some (\<lambda>s. s))\<rparr>"

definition time_0 :: timeval where
  "time_0 = \<lparr>tv_sec = 0, tv_usec = 0\<rparr>"



text \<open>
  An edge-triggered watcher that is served twice. The world is the list of the batches
  that the backend reports, each a list of watchers with their events, after which it
  reports nothing. Watcher 0 is registered with \<open>ULOOP_READ\<close> and
  \<open>ULOOP_EDGE_TRIGGER\<close>, and the backend reports it readable twice. Its callback runs
  the loop again while the backend has something to report, where the second event is
  met, and deletes its watcher when the backend has nothing left. The loop that the
  callback runs finds the callbacks in \<open>edge_env0\<close>, in which the callbacks do nothing,
  so that the nesting ends there. Every watcher has this callback.
\<close>

definition batch_fetch ::
  "int \<Rightarrow> (nat \<times> 32 word) list list uloop \<Rightarrow> int \<times> (nat \<times> 32 word) list list uloop" where
  "batch_fetch timeout s =
     (case world s of
        [] \<Rightarrow> (0, s)
      | b # rest \<Rightarrow>
          (int (length b),
           s\<lparr>cur_fds := (\<lambda>i. if i < length b
                               then \<lparr>ev_fd = Some (fst (b ! i)), ev_events = snd (b ! i)\<rparr>
                               else cur_fds s i),
             world := rest\<rparr>))"

definition edge_env0 :: "(nat \<times> 32 word) list list uloop_env" where
  "edge_env0 = quiet_env\<lparr>uloop_fetch_events := batch_fetch, fd_cb := (\<lambda>f. Some (\<lambda>ev s. s))\<rparr>"

definition edge_cb ::
  "32 word \<Rightarrow> (nat \<times> 32 word) list list uloop \<Rightarrow> (nat \<times> 32 word) list list uloop" where
  "edge_cb ev s =
     (if world s \<noteq> []
      then (case uloop_run_events edge_env0 5 0 s of None \<Rightarrow> s | Some s1 \<Rightarrow> s1)
      else snd (uloop_fd_delete edge_env0 s 0))"

definition edge_env :: "(nat \<times> 32 word) list list uloop_env" where
  "edge_env = edge_env0\<lparr>fd_cb := (\<lambda>f. Some edge_cb)\<rparr>"

definition edge_state :: "(nat \<times> 32 word) list list uloop" where
  "edge_state = snd (uloop_fd_add edge_env0 (initial_state [[(0, 1)], [(0, 1)]]) 0 5)"

text \<open>
  The state in which the callback of watcher 0 finds itself when the backend has
  reported watcher 0 again: its frame is on the stack and the event is the next to be
  dispatched.
\<close>

definition edge_busy_state :: "(nat \<times> 32 word) list list uloop" where
  "edge_busy_state =
     edge_state\<lparr>fd_stack := [\<lparr>sf_fd = Some 0, sf_events = 0\<rparr>],
                cur_fds := (\<lambda>i. \<lparr>ev_fd = Some 0, ev_events = 1\<rparr>),
                cur_fd := 0, cur_nfds := 1, world := []\<rparr>"

text \<open>
  The state in which the loop enters the callback of watcher 0 for the first event: the
  first batch is fetched and consumed, the frame is pushed, and the backend has the
  second batch to report.
\<close>

definition edge_served_state :: "(nat \<times> 32 word) list list uloop" where
  "edge_served_state =
     edge_state\<lparr>fd_stack := [\<lparr>sf_fd = Some 0, sf_events = 0\<rparr>],
                cur_fds := (\<lambda>i. \<lparr>ev_fd = (if i = 0 then Some 0 else None),
                                  ev_events = (if i = 0 then 1 else 0)\<rparr>),
                cur_fd := 1, cur_nfds := 0, trace := [Fetch_events 0],
                world := [[(0, 1)]]\<rparr>"

text \<open>\<open>edge_state\<close> with timeout 0 set to fire in 5 ms.\<close>

definition armed_state :: "(nat \<times> 32 word) list list uloop" where
  "armed_state = snd (uloop_timeout_set edge_env0 edge_state (Timeout 0) 5)"

text \<open>\<open>armed_state\<close> with one fetched event for watcher 0 left from an earlier batch.\<close>

definition leftover_state :: "(nat \<times> 32 word) list list uloop" where
  "leftover_state =
     armed_state\<lparr>cur_fds := (\<lambda>i. \<lparr>ev_fd = Some 0, ev_events = 1\<rparr>), cur_fd := 0, cur_nfds := 1\<rparr>"

text \<open>
  A backend that reports watcher 0 readable at every call, with callbacks that do
  nothing.
\<close>

definition ready_fetch ::
  "int \<Rightarrow> (nat \<times> 32 word) list list uloop \<Rightarrow> int \<times> (nat \<times> 32 word) list list uloop" where
  "ready_fetch timeout s =
     (1, s\<lparr>cur_fds := (cur_fds s)(0 := \<lparr>ev_fd = Some 0, ev_events = 1\<rparr>)\<rparr>)"

definition ready_env :: "(nat \<times> 32 word) list list uloop_env" where
  "ready_env = edge_env0\<lparr>uloop_fetch_events := ready_fetch\<rparr>"

text \<open>
  The callback of timeout 0 sets timeout 1 to fire at once; the callbacks of the other
  timeouts do nothing.
\<close>

definition chain_env :: "nat list uloop_env" where
  "chain_env =
     quiet_env\<lparr>timeout_cb :=
       (\<lambda>k. if k = 0 then Some (\<lambda>s. snd (uloop_timeout_set quiet_env s (Timeout 1) 0))
            else Some (\<lambda>s. s))\<rparr>"

text \<open>Every timeout callback ends the loop, as \<open>uloop_end\<close> does.\<close>

definition cancel_env :: "nat list uloop_env" where
  "cancel_env = quiet_env\<lparr>timeout_cb := (\<lambda>k. Some (\<lambda>s. s\<lparr>uloop_cancelled := True\<rparr>))\<rparr>"

section \<open>State conflicts\<close>

lemma busy_state_pending:
  "t_pending (timeout_mem busy_state (Timeout 0))"
  "\<not> t_pending (timeout_mem busy_state (Timeout 1))"
  "p_pending (process_mem busy_state 0)"
  "\<not> p_pending (process_mem busy_state 1)"
  "s_pending (signal_mem busy_state 0)"
  "\<not> s_pending (signal_mem busy_state 1)"
  by (simp_all add: busy_state_def initial_state_def quiet_env_def uloop_timeout_add_def
      uloop_process_add_def uloop_signal_add_def sigaction_get_def sigaction_set_def Let_def)

text \<open>
  Claim C8. For timeout, process and signal watchers alike, adding a watcher whose
  \<open>pending\<close> flag is set, and cancelling or deleting a watcher whose \<open>pending\<close> flag is
  clear, returns -1 and leaves the whole state as it was: the fields of the watcher, the
  three lists and everything else.
\<close>

theorem state_conflict_no_effect:
  "(t_pending (timeout_mem s t) \<longrightarrow> uloop_timeout_add s t = (- 1, s)) \<and>
   (\<not> t_pending (timeout_mem s t') \<longrightarrow> uloop_timeout_cancel s t' = (- 1, s)) \<and>
   (p_pending (process_mem s p) \<longrightarrow> uloop_process_add s p = (- 1, s)) \<and>
   (\<not> p_pending (process_mem s p') \<longrightarrow> uloop_process_delete s p' = (- 1, s)) \<and>
   (s_pending (signal_mem s g) \<longrightarrow> uloop_signal_add e s g = (- 1, s)) \<and>
   (\<not> s_pending (signal_mem s g') \<longrightarrow> uloop_signal_delete e s g' = (- 1, s))"
  by (simp add: uloop_timeout_add_def uloop_timeout_cancel_def uloop_process_add_def
      uloop_process_delete_def uloop_signal_add_def uloop_signal_delete_def)

theorem state_conflict_no_effect_witness:
  "t_pending (timeout_mem busy_state (Timeout 0)) \<and>
   uloop_timeout_add busy_state (Timeout 0) = (- 1, busy_state) \<and>
   \<not> t_pending (timeout_mem busy_state (Timeout 1)) \<and>
   uloop_timeout_cancel busy_state (Timeout 1) = (- 1, busy_state) \<and>
   p_pending (process_mem busy_state 0) \<and>
   uloop_process_add busy_state 0 = (- 1, busy_state) \<and>
   \<not> p_pending (process_mem busy_state 1) \<and>
   uloop_process_delete busy_state 1 = (- 1, busy_state) \<and>
   s_pending (signal_mem busy_state 0) \<and>
   uloop_signal_add quiet_env busy_state 0 = (- 1, busy_state) \<and>
   \<not> s_pending (signal_mem busy_state 1) \<and>
   uloop_signal_delete quiet_env busy_state 1 = (- 1, busy_state)"
  using state_conflict_no_effect
    [of busy_state "Timeout 0" "Timeout 1" 0 1 0 quiet_env 1]
    busy_state_pending
  by simp

section \<open>The signal bitset\<close>

text \<open>
  Claim C2 (the source does not do what the claim says). The claim has every byte
  \<open>s\<close> from 1 to 64 that is read from the pipe recorded in the 64-bit set, and the
  watchers of the recorded signals called. \<open>set_signo\<close> and \<open>get_signo\<close> accept the
  numbers 1 to 64 but build the bit as \<open>1u << (signo - 1)\<close>, a 32-bit value: for signal
  40 the shift is undefined in C, and whatever 32-bit value \<open>ub 39\<close> it gives, bit 39
  of \<open>signums\<close> stays clear after the pipe with the one byte 40 is drained. Where the
  shift gives 0, the watcher of signal 40 is not called at all: the log stays empty.
\<close>

theorem signal_40_not_recorded:
  "signal_consume_read (pipe_env ub) 3 0 [[40]] = Some (ucast (ub 39), []) \<and>
   \<not> bit (ucast (ub 39) :: 64 word) 39 \<and>
   signals signal40_state = [0] \<and>
   s_signo (signal_mem signal40_state 0) = 40 \<and>
   map_option trace (signal_consume (pipe_env (\<lambda>n. 0)) 3 signal40_state) = Some []"
proof -
  have drained: "signal_consume_read (pipe_env ub) 3 0 [[40]] = Some (ucast (ub 39), [])"
    by (simp add: numeral_3_eq_3 pipe_env_def quiet_env_def set_signo_def shl_1u_def)
  have clear: "\<not> bit (ucast (ub 39) :: 64 word) 39"
    by (auto simp add: bit_ucast_iff dest: bit_imp_le_length)
  have watcher: "signals signal40_state = [0]" "s_signo (signal_mem signal40_state 0) = 40"
    by (simp_all add: signal40_state_def pipe_env_def quiet_env_def initial_state_def
        uloop_signal_add_def sigaction_get_def sigaction_set_def Let_def)
  have silent:
    "map_option trace (signal_consume (pipe_env (\<lambda>n. 0)) 3 signal40_state) = Some []"
    by (simp add: numeral_3_eq_3 signal_consume_def signal40_state_def pipe_env_def
        quiet_env_def set_signo_def get_signo_def shl_1u_def initial_state_def
        uloop_signal_add_def list_first_def sigaction_get_def sigaction_set_def Let_def)
  show ?thesis
    using drained clear watcher silent by blast
qed

section \<open>Signal dispositions\<close>

text \<open>
  Claim C3 (the source does not do what the claim says). The claim has the saved
  disposition restored only if the handler installed at that moment is still the bridge
  handler, as the two other functions of uloop.c that restore a disposition do:
  \<open>uloop_install_handler\<close> and \<open>uloop_ignore_signal\<close> read the installed action and
  leave it alone when it is no longer theirs. \<open>uloop_signal_delete\<close> does not read the
  installed action: it tests the handler that was saved when the watcher was added. In
  \<open>third_party_state\<close> the watcher 0 of signal 10 is pending, its saved handler is the
  default, and the handler installed for signal 10 is no longer the bridge but the handler
  of a third party: deleting the watcher returns 0 and overwrites that handler with the
  saved disposition.
\<close>

theorem signal_delete_overwrites_third_party:
  "s_pending (signal_mem third_party_state 0) \<and>
   s_signo (signal_mem third_party_state 0) = 10 \<and>
   sa_handler (s_orig (signal_mem third_party_state 0)) = SIG_DFL \<and>
   sa_handler (sigactions third_party_state 10) = Handler 7 \<and>
   fst (uloop_signal_delete quiet_env third_party_state 0) = 0 \<and>
   sa_handler (sigactions (snd (uloop_signal_delete quiet_env third_party_state 0)) 10)
     = SIG_DFL"
  by (simp add: third_party_state_def busy_state_def initial_state_def quiet_env_def
      uloop_timeout_add_def uloop_process_add_def uloop_signal_add_def uloop_signal_delete_def
      sigaction_get_def sigaction_set_def Let_def)

section \<open>The result of uloop_fd_delete\<close>

text \<open>
  Claim C7 as stated fails: for a watcher that is not registered \<open>uloop_fd_delete\<close>
  returns 0, not -1.
\<close>

theorem fd_delete_unregistered_returns_0:
  "\<not> f_registered (fd_mem (initial_state [] :: nat list uloop) 0) \<and>
   fst (uloop_fd_delete quiet_env (initial_state [] :: nat list uloop) 0) = 0"
  by (simp add: uloop_fd_delete_def initial_state_def quiet_env_def)

text \<open>
  Claim C7, amended. \<open>uloop_fd_delete\<close> returns 0 when the watcher is not registered;
  when it is registered the result is that of the backend's \<open>__uloop_fd_delete\<close>: 0
  where the backend succeeds, and its error where it fails.
\<close>

theorem fd_delete_result:
  "(\<not> f_registered (fd_mem s fd) \<longrightarrow> fst (uloop_fd_delete e s fd) = 0) \<and>
   (f_registered (fd_mem s1 fd1) \<and> (\<forall>s'. fst (backend_fd_delete e fd1 s') = r) \<longrightarrow>
      fst (uloop_fd_delete e s1 fd1) = r)"
  by (simp add: uloop_fd_delete_def Let_def case_prod_beta)

theorem fd_delete_result_witness:
  "\<not> f_registered (fd_mem (initial_state [] :: nat list uloop) 0) \<and>
   fst (uloop_fd_delete quiet_env (initial_state [] :: nat list uloop) 0) = 0 \<and>
   f_registered (fd_mem fd_state 0) \<and>
   fst (uloop_fd_delete quiet_env fd_state 0) = 0 \<and>
   fst (uloop_fd_delete (quiet_env\<lparr>backend_fd_delete := (\<lambda>fd s. (- 1, s))\<rparr>) fd_state 0) = - 1"
proof -
  have unreg: "\<not> f_registered (fd_mem (initial_state [] :: nat list uloop) 0)"
    by (simp add: initial_state_def)
  have reg: "f_registered (fd_mem fd_state 0)"
    by (simp add: fd_state_def uloop_fd_add_def initial_state_def quiet_env_def Let_def)
  have ok: "\<forall>s'. fst (backend_fd_delete quiet_env 0 (s' :: nat list uloop)) = 0"
    by (simp add: quiet_env_def)
  have fails: "\<forall>s'. fst (backend_fd_delete
      (quiet_env\<lparr>backend_fd_delete := (\<lambda>fd s. (- 1, s))\<rparr>) 0 (s' :: nat list uloop)) = - 1"
    by simp
  have a: "fst (uloop_fd_delete quiet_env (initial_state [] :: nat list uloop) 0) = 0"
    using fd_delete_result [of "initial_state [] :: nat list uloop" 0 quiet_env fd_state 0 0]
      unreg by blast
  have b: "fst (uloop_fd_delete quiet_env fd_state 0) = 0"
    using fd_delete_result [of fd_state 0 quiet_env fd_state 0 0] reg ok by blast
  have c: "fst (uloop_fd_delete (quiet_env\<lparr>backend_fd_delete := (\<lambda>fd s. (- 1, s))\<rparr>)
      fd_state 0) = - 1"
    using fd_delete_result [of fd_state 0
        "quiet_env\<lparr>backend_fd_delete := (\<lambda>fd s. (- 1, s))\<rparr>" fd_state 0 "- 1"]
      reg fails by blast
  show ?thesis
    using unreg reg a b c by blast
qed

section \<open>The order of the timeout list\<close>

text \<open>
  \<open>tv_diff\<close> of two times in range is the exact value of its expression: nothing
  overflows. There it is antisymmetric and satisfies a triangle inequality up to one
  millisecond, which is what the insertion of \<open>uloop_timeout_add\<close> relies on.
\<close>

lemma c_div_1000: "c_div x 1000 = (if x \<ge> 0 then x div 1000 else - ((- x) div 1000))"
  by (auto simp add: c_div_def sgn_if)

lemma int64_id:
  "- 9223372036854775808 \<le> x \<Longrightarrow> x < 9223372036854775808 \<Longrightarrow> int64 x = x"
  by (simp add: int64_def)

lemma c_div_abs_le: "\<bar>c_div x 1000\<bar> \<le> \<bar>x\<bar>"
  unfolding c_div_1000 by (auto; linarith)

lemma c_mod_bounds: "- 1000 < c_mod x 1000 \<and> c_mod x 1000 < 1000"
  unfolding c_mod_def c_div_1000 by (auto; presburger)

lemma c_div_msecs: "- 2147483648 \<le> m \<Longrightarrow> m \<le> 2147483647 \<Longrightarrow> \<bar>c_div m 1000\<bar> \<le> 2147484"
  unfolding c_div_1000 by (auto; linarith)

lemma c_div_nsec: "0 \<le> x \<Longrightarrow> x < 1000000000 \<Longrightarrow> 0 \<le> c_div x 1000 \<and> c_div x 1000 < 1000000"
  unfolding c_div_1000 by (auto; linarith)

lemma tv_diff_in_range:
  assumes "tv_in_range a" "tv_in_range b"
  shows "tv_diff a b = (tv_sec a - tv_sec b) * 1000 + c_div (tv_usec a - tv_usec b) 1000"
proof -
  have s: "\<bar>tv_sec a - tv_sec b\<bar> \<le> 9007199254740992"
    and u: "\<bar>tv_usec a - tv_usec b\<bar> \<le> 9007199254740992"
    using assms by (auto simp add: tv_in_range_def)
  have d: "\<bar>c_div (tv_usec a - tv_usec b) 1000\<bar> \<le> 9007199254740992"
    using c_div_abs_le [of "tv_usec a - tv_usec b"] u by linarith
  have 1: "int64 (tv_sec a - tv_sec b) = tv_sec a - tv_sec b"
    using s by (intro int64_id) linarith+
  have 2: "int64 (tv_usec a - tv_usec b) = tv_usec a - tv_usec b"
    using u by (intro int64_id) linarith+
  have 3: "int64 ((tv_sec a - tv_sec b) * 1000) = (tv_sec a - tv_sec b) * 1000"
    using s by (intro int64_id) (auto simp add: abs_le_iff)
  have 4: "int64 ((tv_sec a - tv_sec b) * 1000 + c_div (tv_usec a - tv_usec b) 1000)
      = (tv_sec a - tv_sec b) * 1000 + c_div (tv_usec a - tv_usec b) 1000"
    using s d by (intro int64_id) (auto simp add: abs_le_iff)
  show ?thesis
    unfolding tv_diff_def 1 2 3 4 ..
qed

lemma tv_diff_antisym:
  assumes "tv_in_range a" "tv_in_range b"
  shows "tv_diff b a = - tv_diff a b"
  unfolding tv_diff_in_range [OF assms] tv_diff_in_range [OF assms(2,1)] c_div_1000
  by (auto simp: algebra_simps)

lemma c_div_add_le: "c_div (p + q) 1000 \<le> c_div p 1000 + c_div q 1000 + 1"
  unfolding c_div_1000 by (auto; presburger)

lemma tv_diff_triangle:
  assumes "tv_in_range a" "tv_in_range b" "tv_in_range c"
  shows "tv_diff a c \<le> tv_diff a b + tv_diff b c + 1"
proof -
  have "tv_usec a - tv_usec c = (tv_usec a - tv_usec b) + (tv_usec b - tv_usec c)" by simp
  then have "c_div (tv_usec a - tv_usec c) 1000 \<le>
      c_div (tv_usec a - tv_usec b) 1000 + c_div (tv_usec b - tv_usec c) 1000 + 1"
    using c_div_add_le by metis
  then show ?thesis
    unfolding tv_diff_in_range [OF assms(1,3)] tv_diff_in_range [OF assms(1,2)]
      tv_diff_in_range [OF assms(2,3)]
    by (simp add: algebra_simps)
qed

lemma tv_diff_self: "tv_diff a a = 0"
  by (simp add: tv_diff_def c_div_def int64_def)

text \<open>
  Out of range \<open>tv_diff\<close> wraps around: for two times that are \<open>9223372036854776\<close>
  seconds apart the product with 1000 exceeds \<open>2^63\<close>, and the later time is taken to
  be the earlier one.
\<close>

lemma tv_diff_wraps:
  "tv_diff \<lparr>tv_sec = 9223372036854776, tv_usec = 0\<rparr> \<lparr>tv_sec = 0, tv_usec = 0\<rparr>
     = - 9223372036854775616"
  by (simp add: tv_diff_def c_div_def int64_def)

lemma set_time_in_range:
  assumes "\<bar>sec\<bar> \<le> 2251799813685248" "0 \<le> nsec" "nsec < 1000000000"
    "- 2147483648 \<le> msecs" "msecs \<le> 2147483647"
  shows "tv_in_range
     (let s' = int64 (sec + c_div msecs 1000);
          u' = int64 (c_div nsec 1000 + c_mod msecs 1000 * 1000)
      in if u' > 1000000 then \<lparr>tv_sec = int64 (s' + 1), tv_usec = int64 (u' - 1000000)\<rparr>
         else \<lparr>tv_sec = s', tv_usec = u'\<rparr>)"
proof -
  have q: "\<bar>c_div msecs 1000\<bar> \<le> 2147484" using assms(4,5) by (rule c_div_msecs)
  have r: "- 1000 < c_mod msecs 1000 \<and> c_mod msecs 1000 < 1000" by (rule c_mod_bounds)
  have n: "0 \<le> c_div nsec 1000 \<and> c_div nsec 1000 < 1000000" using assms(2,3) by (rule c_div_nsec)
  have s': "int64 (sec + c_div msecs 1000) = sec + c_div msecs 1000"
    using assms(1) q by (intro int64_id) linarith+
  have u': "int64 (c_div nsec 1000 + c_mod msecs 1000 * 1000)
      = c_div nsec 1000 + c_mod msecs 1000 * 1000"
    using n r by (intro int64_id) linarith+
  have s'': "int64 (sec + c_div msecs 1000 + 1) = sec + c_div msecs 1000 + 1"
    using assms(1) q by (intro int64_id) linarith+
  have u'': "int64 (c_div nsec 1000 + c_mod msecs 1000 * 1000 - 1000000)
      = c_div nsec 1000 + c_mod msecs 1000 * 1000 - 1000000"
    using n r by (intro int64_id) linarith+
  show ?thesis
    unfolding Let_def s' u' s'' u''
    using assms(1) q r n by (auto simp add: tv_in_range_def)
qed

lemma set_list_add_before: "set (list_add_before P x xs) = insert x (set xs)"
  by (induction xs) auto

lemma distinct_list_add_before:
  "distinct xs \<Longrightarrow> x \<notin> set xs \<Longrightarrow> distinct (list_add_before P x xs)"
  by (induction xs) (auto simp: set_list_add_before)

lemma sorted_list_add_before:
  assumes "sorted_wrt (\<lambda>a b. tv_diff (k a) (k b) \<le> 0) xs"
    and "\<forall>y\<in>set xs. tv_in_range (k y)" and "tv_in_range (k x)"
  shows "sorted_wrt (\<lambda>a b. tv_diff (k a) (k b) \<le> 0)
           (list_add_before (\<lambda>tmp. tv_diff (k tmp) (k x) > 0) x xs)"
  using assms(1,2)
proof (induction xs)
  case Nil
  then show ?case by simp
next
  case (Cons tmp rest)
  have rx: "tv_in_range (k x)" and rt: "tv_in_range (k tmp)"
    using assms(3) Cons.prems(2) by simp_all
  show ?case
  proof (cases "tv_diff (k tmp) (k x) > 0")
    case True
    have a: "tv_diff (k x) (k tmp) \<le> 0"
      using True tv_diff_antisym [OF rt rx] by simp
    have b: "tv_diff (k x) (k y) \<le> 0" if "y \<in> set rest" for y
    proof -
      have ry: "tv_in_range (k y)" using Cons.prems(2) that by simp
      have "tv_diff (k tmp) (k y) \<le> 0" using Cons.prems(1) that by simp
      then show ?thesis
        using tv_diff_triangle [OF rx rt ry] True tv_diff_antisym [OF rt rx]
        by linarith
    qed
    show ?thesis using True a b Cons.prems by auto
  next
    case False
    then show ?thesis
      using Cons tv_diff_antisym [OF rt rx] by (auto simp: set_list_add_before)
  qed
qed

lemma deadline_pending_upd [simp]:
  "deadline (s\<lparr>timeouts := l, timeout_mem := (timeout_mem s)(t := (timeout_mem s t)\<lparr>t_pending := b\<rparr>)\<rparr>) = deadline s"
  by (rule ext) (simp add: deadline_def)

lemma timeout_add_linked:
  assumes "timeouts_linked s"
  shows "timeouts_linked (snd (uloop_timeout_add s t))"
  using assms
  by (auto simp add: uloop_timeout_add_def timeouts_linked_def set_list_add_before
      distinct_list_add_before)

lemma timeout_cancel_linked:
  assumes "timeouts_linked s"
  shows "timeouts_linked (snd (uloop_timeout_cancel s t))"
  using assms
  by (auto simp add: uloop_timeout_cancel_def timeouts_linked_def list_del_def distinct_removeAll)

lemma timeout_set_linked:
  assumes "timeouts_linked s"
  shows "timeouts_linked (snd (uloop_timeout_set e s t msecs))"
proof -
  define s1 where "s1 = (if t_pending (timeout_mem s t) then snd (uloop_timeout_cancel s t) else s)"
  have l1: "timeouts_linked s1"
    using assms timeout_cancel_linked [of s t] by (simp add: s1_def)
  have l3: "timeouts_linked (s1\<lparr>world := w,
      timeout_mem := (timeout_mem s1)(t := (timeout_mem s1 t)\<lparr>t_time := tv\<rparr>)\<rparr>)" for w tv
    using l1 by (simp add: timeouts_linked_def)
  show ?thesis
    using l3
    by (auto simp add: uloop_timeout_set_def uloop_gettime_def Let_def s1_def [symmetric]
        split: prod.splits intro!: timeout_add_linked)
qed

lemma timeout_add_inv:
  assumes "timeout_inv s" and "t_pending (timeout_mem s t) \<or> tv_in_range (deadline s t)"
  shows "timeout_inv (snd (uloop_timeout_add s t))"
proof (cases "t_pending (timeout_mem s t)")
  case True
  then show ?thesis using assms by (simp add: uloop_timeout_add_def)
next
  case False
  have range: "\<forall>y\<in>set (timeouts s). tv_in_range (deadline s y)" and new: "tv_in_range (deadline s t)"
    using assms False by (simp_all add: timeout_inv_def timeouts_in_range_def list_all_iff)
  have ord: "sorted_wrt (\<lambda>a b. tv_diff (deadline s a) (deadline s b) \<le> 0)
      (list_add_before (\<lambda>tmp. tv_diff (deadline s tmp) (deadline s t) > 0) t (timeouts s))"
    using assms(1) sorted_list_add_before [of "deadline s" "timeouts s" t] range new
    by (simp add: timeout_inv_def timeouts_ordered_def)
  have linked: "timeouts_linked (snd (uloop_timeout_add s t))"
    using assms(1) by (simp add: timeout_inv_def timeout_add_linked)
  show ?thesis
    using False ord linked range new
    by (auto simp add: uloop_timeout_add_def timeout_inv_def timeouts_ordered_def
        timeouts_in_range_def list_all_iff set_list_add_before deadline_def [symmetric])
qed

lemma timeout_cancel_inv:
  assumes "timeout_inv s"
  shows "timeout_inv (snd (uloop_timeout_cancel s t))"
proof (cases "t_pending (timeout_mem s t)")
  case False
  then show ?thesis using assms by (simp add: uloop_timeout_cancel_def)
next
  case True
  have ord: "sorted_wrt (\<lambda>a b. tv_diff (deadline s a) (deadline s b) \<le> 0)
      (removeAll t (timeouts s))"
    using assms sorted_wrt_filter [of _ "timeouts s" "\<lambda>x. x \<noteq> t"]
    by (simp add: timeout_inv_def timeouts_ordered_def removeAll_filter_not_eq)
       (metis (mono_tags, lifting) filter_cong)
  have linked: "timeouts_linked (snd (uloop_timeout_cancel s t))"
    using assms by (simp add: timeout_inv_def timeout_cancel_linked)
  show ?thesis
    using True ord linked assms
    by (auto simp add: uloop_timeout_cancel_def timeout_inv_def timeouts_ordered_def
        timeouts_in_range_def list_all_iff list_del_def)
qed

lemma timeout_inv_world [simp]: "timeout_inv (s\<lparr>world := w\<rparr>) = timeout_inv s"
  by (simp add: timeout_inv_def timeouts_ordered_def timeouts_linked_def timeouts_in_range_def
      deadline_def)

lemma timeout_time_inv:
  assumes "timeout_inv s" "\<not> t_pending (timeout_mem s t)"
  shows "timeout_inv (s\<lparr>timeout_mem := (timeout_mem s)(t := (timeout_mem s t)\<lparr>t_time := tv\<rparr>)\<rparr>)"
proof -
  let ?s = "s\<lparr>timeout_mem := (timeout_mem s)(t := (timeout_mem s t)\<lparr>t_time := tv\<rparr>)\<rparr>"
  have notin: "t \<notin> set (timeouts s)"
    using assms by (simp add: timeout_inv_def timeouts_linked_def)
  have same: "deadline ?s x = deadline s x" if "x \<in> set (timeouts s)" for x
    using that notin by (auto simp add: deadline_def)
  have "sorted_wrt (\<lambda>a b. tv_diff (deadline ?s a) (deadline ?s b) \<le> 0) (timeouts s)"
    using assms(1) same
    by (auto simp add: timeout_inv_def timeouts_ordered_def elim!: sorted_wrt_mono_rel [rotated])
  moreover have "\<forall>x\<in>set (timeouts s). tv_in_range (deadline ?s x)"
    using assms(1) same by (simp add: timeout_inv_def timeouts_in_range_def list_all_iff)
  ultimately show ?thesis
    using assms
    by (auto simp add: timeout_inv_def timeouts_ordered_def timeouts_linked_def
        timeouts_in_range_def list_all_iff)
qed

lemma timeout_cancel_not_pending:
  "\<not> t_pending (timeout_mem (snd (uloop_timeout_cancel s t)) t)"
  by (simp add: uloop_timeout_cancel_def)

lemma timeout_set_inv:
  assumes "timeout_inv s" and "clock_in_range e"
    and "- 2147483648 \<le> msecs" and "msecs \<le> 2147483647"
  shows "timeout_inv (snd (uloop_timeout_set e s t msecs))"
proof -
  define s1 where "s1 = (if t_pending (timeout_mem s t) then snd (uloop_timeout_cancel s t) else s)"
  have inv1: "timeout_inv s1" and np1: "\<not> t_pending (timeout_mem s1 t)"
    using assms(1) timeout_cancel_inv [of s t] timeout_cancel_not_pending [of s t]
    by (auto simp add: s1_def)
  obtain sec nsec w where c: "clock_gettime e (world s1) = ((sec, nsec), w)"
    by (metis surj_pair)
  have clk: "\<bar>sec\<bar> \<le> 2251799813685248" "0 \<le> nsec" "nsec < 1000000000"
    using assms(2) c unfolding clock_in_range_def by (metis fst_conv snd_conv)+
  define time where "time =
     (let s' = int64 (sec + c_div msecs 1000);
          u' = int64 (c_div nsec 1000 + c_mod msecs 1000 * 1000)
      in if u' > 1000000 then \<lparr>tv_sec = int64 (s' + 1), tv_usec = int64 (u' - 1000000)\<rparr>
         else \<lparr>tv_sec = s', tv_usec = u'\<rparr>)"
  have range: "tv_in_range time"
    unfolding time_def using clk assms(3,4) by (rule set_time_in_range)
  define s2 where "s2 = s1\<lparr>world := w\<rparr>"
  define s3 where "s3 = s2\<lparr>timeout_mem := (timeout_mem s2)(t := (timeout_mem s2 t)\<lparr>t_time := time\<rparr>)\<rparr>"
  have inv2: "timeout_inv s2" and np2: "\<not> t_pending (timeout_mem s2 t)"
    using inv1 np1 by (simp_all add: s2_def)
  have inv3: "timeout_inv s3"
    unfolding s3_def using inv2 np2 by (rule timeout_time_inv)
  have dl: "tv_in_range (deadline s3 t)"
    using range by (simp add: s3_def deadline_def)
  have res: "uloop_timeout_set e s t msecs = uloop_timeout_add s3 t"
    using c
    by (simp add: uloop_timeout_set_def uloop_gettime_def Let_def s1_def [symmetric]
        s2_def s3_def time_def)
  show ?thesis
    unfolding res using inv3 dl by (intro timeout_add_inv) simp_all
qed

lemma handle_global_timeout_inv [simp]:
  "timeout_inv (handle_global_timeout s) = timeout_inv s"
  by (simp add: handle_global_timeout_def timeout_inv_def timeouts_ordered_def
      timeouts_linked_def timeouts_in_range_def deadline_def)

lemma log_event_inv [simp]: "timeout_inv (log_event ev s) = timeout_inv s"
  by (simp add: log_event_def timeout_inv_def timeouts_ordered_def
      timeouts_linked_def timeouts_in_range_def deadline_def)

lemma process_timeouts_inv:
  assumes "callbacks_keep e timeout_inv"
  shows "timeout_inv s \<Longrightarrow> uloop_process_timeouts e n tv s = Some (r, s') \<Longrightarrow> timeout_inv s'"
proof (induction n arbitrary: s)
  case 0
  then show ?case by simp
next
  case (Suc n)
  show ?case
  proof (cases "timeouts s")
    case Nil
    then show ?thesis using Suc.prems by simp
  next
    case (Cons t rest)
    show ?thesis
    proof (cases "tv_diff (t_time (timeout_mem s t)) tv > 0")
      case True
      then show ?thesis using Suc.prems Cons by simp
    next
      case False
      let ?s1 = "snd (uloop_timeout_cancel s t)"
      have inv1: "timeout_inv ?s1" using Suc.prems(1) by (rule timeout_cancel_inv)
      show ?thesis
      proof (cases "timeout_cb_of e t")
        case None
        then show ?thesis
          using Suc.prems(2) Cons False Suc.IH [OF inv1] by (simp add: Let_def)
      next
        case (Some cb)
        let ?s2 = "cb (log_event (Timeout_cb t (t_pending (timeout_mem ?s1 t))
                        (t \<in> set (timeouts ?s1))) ?s1)"
        have "timeout_inv ?s2"
          using Some inv1 assms
          by (cases t) (auto simp add: timeout_cb_of_def callbacks_keep_def)
        then show ?thesis
          using Suc.prems(2) Cons False Some Suc.IH [of ?s2] by (simp add: Let_def)
      qed
    qed
  qed
qed

lemma precedes_list_add_before:
  "u \<in> set xs \<Longrightarrow> t \<noteq> u \<Longrightarrow> \<forall>x\<in>set (takeWhile (\<lambda>x. x \<noteq> u) xs). \<not> later x \<Longrightarrow>
   \<not> later u \<Longrightarrow> precedes (list_add_before later t xs) u t"
proof (induction xs)
  case Nil
  then show ?case by simp
next
  case (Cons y ys)
  show ?case
  proof (cases "y = u")
    case True
    then show ?thesis using Cons.prems by (simp add: precedes_def set_list_add_before)
  next
    case False
    then have "precedes (list_add_before later t ys) u t"
      using Cons by simp
    then show ?thesis using False Cons.prems by (simp add: precedes_def)
  qed
qed

lemma sorted_wrt_before_elem:
  "sorted_wrt R xs \<Longrightarrow> u \<in> set xs \<Longrightarrow> x \<in> set (takeWhile (\<lambda>x. x \<noteq> u) xs) \<Longrightarrow> R x u"
  by (induction xs) (auto split: if_splits)

lemma removeAll_list_add_before:
  "x \<notin> set xs \<Longrightarrow> removeAll x (list_add_before P x xs) = xs"
  by (induction xs) auto

lemma timeout_add_fifo:
  assumes "timeout_inv s" "\<not> t_pending (timeout_mem s t)" "u \<in> set (timeouts s)"
    "deadline s u = deadline s t"
  shows "precedes (timeouts (snd (uloop_timeout_add s t))) u t"
    and "removeAll t (timeouts (snd (uloop_timeout_add s t))) = timeouts s"
proof -
  have notin: "t \<notin> set (timeouts s)"
    using assms by (simp add: timeout_inv_def timeouts_linked_def)
  then have ne: "t \<noteq> u" using assms(3) by auto
  have ord: "sorted_wrt (\<lambda>a b. tv_diff (deadline s a) (deadline s b) \<le> 0) (timeouts s)"
    using assms(1) by (simp add: timeout_inv_def timeouts_ordered_def)
  have early: "\<forall>x\<in>set (takeWhile (\<lambda>x. x \<noteq> u) (timeouts s)).
      \<not> tv_diff (deadline s x) (deadline s t) > 0"
    using sorted_wrt_before_elem [OF ord assms(3)] assms(4) by fastforce
  have self: "\<not> tv_diff (deadline s u) (deadline s t) > 0"
    using assms(4) by (simp add: tv_diff_self)
  show "precedes (timeouts (snd (uloop_timeout_add s t))) u t"
    using precedes_list_add_before [OF assms(3) ne early self] assms(2)
    by (simp add: uloop_timeout_add_def deadline_def)
  show "removeAll t (timeouts (snd (uloop_timeout_add s t))) = timeouts s"
    using notin assms(2) by (simp add: uloop_timeout_add_def removeAll_list_add_before)
qed

lemma apply_timeout_op_inv:
  assumes "callbacks_keep e timeout_inv" "clock_in_range e" "op_in_range x"
    "timeout_inv s" "apply_timeout_op e n x s = Some s'"
  shows "timeout_inv s'"
proof (cases x)
  case (Op_add t tv)
  show ?thesis
  proof (cases "t_pending (timeout_mem s t)")
    case True
    then show ?thesis using assms(4,5) Op_add by (auto simp add: uloop_timeout_add_def)
  next
    case False
    let ?s = "s\<lparr>timeout_mem := (timeout_mem s)(t := (timeout_mem s t)\<lparr>t_time := tv\<rparr>)\<rparr>"
    have "timeout_inv ?s" using assms(4) False by (rule timeout_time_inv)
    moreover have "tv_in_range (deadline ?s t)"
      using assms(3) Op_add by (simp add: deadline_def)
    ultimately have "timeout_inv (snd (uloop_timeout_add ?s t))"
      by (intro timeout_add_inv) simp_all
    then show ?thesis using assms(5) Op_add False by auto
  qed
next
  case (Op_set t msecs)
  then show ?thesis using assms by (auto intro!: timeout_set_inv)
next
  case (Op_cancel t)
  then show ?thesis using assms by (auto intro!: timeout_cancel_inv)
next
  case Op_fire
  obtain tv s1 where g: "uloop_gettime e s = (tv, s1)" by (cases "uloop_gettime e s")
  obtain w where s1: "s1 = s\<lparr>world := w\<rparr>"
    using g by (auto simp add: uloop_gettime_def split: prod.splits)
  have "timeout_inv s1" using assms(4) s1 by simp
  then show ?thesis
    using assms(1,5) Op_fire g process_timeouts_inv [OF assms(1), of s1 n tv]
    by auto
qed

lemma apply_timeout_ops_inv:
  assumes "callbacks_keep e timeout_inv" "clock_in_range e"
  shows "list_all op_in_range ops \<Longrightarrow> timeout_inv s \<Longrightarrow>
    apply_timeout_ops e n ops s = Some s' \<Longrightarrow> timeout_inv s'"
proof (induction ops arbitrary: s)
  case Nil
  then show ?case by simp
next
  case (Cons x xs)
  from Cons.prems(3) obtain s1 where
    step: "apply_timeout_op e n x s = Some s1" and rest: "apply_timeout_ops e n xs s1 = Some s'"
    by (auto split: option.splits)
  have "op_in_range x" and xs: "list_all op_in_range xs" using Cons.prems(1) by simp_all
  then have "timeout_inv s1"
    using apply_timeout_op_inv [OF assms _ Cons.prems(2) step] by simp
  then show ?case using Cons.IH xs rest by blast
qed

lemma initial_state_inv: "timeout_inv (initial_state w)"
  by (simp add: initial_state_def timeout_inv_def timeouts_ordered_def timeouts_linked_def
      timeouts_in_range_def)

lemma quiet_clock_in_range: "clock_in_range (quiet_env\<lparr>timeout_cb := cbs\<rparr>)"
  by (simp add: clock_in_range_def quiet_env_def)

lemma rearm_env_keeps: "callbacks_keep rearm_env timeout_inv"
  using quiet_clock_in_range [of "timeout_cb quiet_env"]
  by (auto simp add: callbacks_keep_def rearm_env_def split: if_splits
      intro!: timeout_set_inv)

lemma busy_state_inv: "timeout_inv busy_state"
  by (auto simp add: busy_state_def initial_state_def quiet_env_def uloop_timeout_add_def
      uloop_process_add_def uloop_signal_add_def sigaction_get_def sigaction_set_def Let_def
      timeout_inv_def timeouts_ordered_def timeouts_linked_def timeouts_in_range_def
      tv_in_range_def deadline_def)

lemma busy_state_timeouts:
  "timeouts busy_state = [Timeout 0]"
  "deadline busy_state (Timeout 0) = deadline busy_state (Timeout 1)"
  by (simp_all add: busy_state_def initial_state_def quiet_env_def uloop_timeout_add_def
      uloop_process_add_def uloop_signal_add_def sigaction_get_def sigaction_set_def Let_def
      deadline_def)

text \<open>
  Claim C5 as stated fails: the list is not kept in the order of the deadlines. Timeout
  0 is added with a deadline of 500 microseconds and then timeout 1 with a deadline of
  100 microseconds: \<open>tv_diff\<close> of the two is 0, so timeout 1 is linked behind timeout
  0 although its deadline is earlier.
\<close>

theorem timeout_list_not_sorted_by_deadline:
  "map_option
     (\<lambda>s. (timeouts s, tv_usecs (deadline s (Timeout 0)), tv_usecs (deadline s (Timeout 1))))
     (apply_timeout_ops quiet_env 0 (take 2 example_ops) (initial_state ([] :: nat list)))
   = Some ([Timeout 0, Timeout 1], 500, 100)"
  by (simp add: example_ops_def initial_state_def uloop_timeout_add_def tv_diff_def c_div_def
      int64_def deadline_def tv_usecs_def)

text \<open>
  Claim C5, amended. As long as the deadlines are in range (seconds and microseconds
  within \<open>2^52\<close> of 0, so that the 64-bit arithmetic of \<open>tv_diff\<close> does not
  overflow), the initial state satisfies, and every sequence of \<open>uloop_timeout_add\<close>,
  \<open>uloop_timeout_set\<close>, \<open>uloop_timeout_cancel\<close> and firing keeps, the invariant
  \<open>timeout_inv\<close>: the list is ordered up to the resolution of \<open>tv_diff\<close> (no
  timeout stands before one that \<open>tv_diff\<close> puts a whole millisecond or more
  earlier), no timeout is linked twice, the \<open>pending\<close> flag of a timeout is true if
  and only if the timeout is linked, and the deadlines of the linked timeouts are in
  range. The deadlines that are added are in range, the milliseconds that are set are a
  32-bit \<open>int\<close>, the monotonic clock is within \<open>2^51\<close> seconds of 0, and the
  callbacks that firing runs keep the invariant, as they do when they use these
  operations themselves. Timeouts with equal deadlines stay in the order of their
  insertion: a new timeout is linked behind every linked timeout with the same deadline,
  and adding and cancelling leave the order of the other timeouts as it was.
\<close>

theorem timeout_list_invariant:
  "timeout_inv (initial_state w) \<and>
   (callbacks_keep e timeout_inv \<and> clock_in_range e \<and> list_all op_in_range ops \<and>
    timeout_inv s \<and> apply_timeout_ops e n ops s = Some s'
      \<longrightarrow> timeout_inv s') \<and>
   (timeout_inv s1 \<and> \<not> t_pending (timeout_mem s1 t) \<and> u \<in> set (timeouts s1) \<and>
    deadline s1 u = deadline s1 t
      \<longrightarrow> precedes (timeouts (snd (uloop_timeout_add s1 t))) u t \<and>
          removeAll t (timeouts (snd (uloop_timeout_add s1 t))) = timeouts s1) \<and>
   (t_pending (timeout_mem s2 t2)
      \<longrightarrow> timeouts (snd (uloop_timeout_cancel s2 t2)) = removeAll t2 (timeouts s2))"
  using initial_state_inv [of w] apply_timeout_ops_inv [of e ops s n s']
    timeout_add_fifo [of s1 t u]
  by (simp add: uloop_timeout_cancel_def list_del_def)

theorem timeout_list_invariant_witness:
  "callbacks_keep rearm_env timeout_inv \<and>
   clock_in_range rearm_env \<and>
   list_all op_in_range example_ops \<and>
   timeout_inv (initial_state ([] :: nat list)) \<and>
   (case apply_timeout_ops rearm_env 5 example_ops (initial_state []) of
      None \<Rightarrow> False
    | Some s' \<Rightarrow> timeouts s' = [Timeout 2, Timeout 0] \<and> timeout_inv s') \<and>
   timeout_inv busy_state \<and>
   \<not> t_pending (timeout_mem busy_state (Timeout 1)) \<and>
   Timeout 0 \<in> set (timeouts busy_state) \<and>
   deadline busy_state (Timeout 0) = deadline busy_state (Timeout 1) \<and>
   precedes (timeouts (snd (uloop_timeout_add busy_state (Timeout 1)))) (Timeout 0) (Timeout 1) \<and>
   removeAll (Timeout 1) (timeouts (snd (uloop_timeout_add busy_state (Timeout 1))))
     = timeouts busy_state \<and>
   t_pending (timeout_mem busy_state (Timeout 0)) \<and>
   timeouts (snd (uloop_timeout_cancel busy_state (Timeout 0))) = []"
proof -
  have clock: "clock_in_range rearm_env"
    unfolding rearm_env_def by (rule quiet_clock_in_range)
  have ops: "list_all op_in_range example_ops"
    by (simp add: example_ops_def tv_in_range_def)
  have run: "map_option timeouts
      (apply_timeout_ops rearm_env 5 example_ops (initial_state [])) = Some [Timeout 2, Timeout 0]"
    by (simp add: example_ops_def initial_state_def uloop_timeout_add_def
        uloop_timeout_cancel_def uloop_timeout_set_def tv_diff_def c_div_def c_mod_def int64_def
        rearm_env_def quiet_env_def uloop_gettime_def eval_nat_numeral Let_def
        timeout_cb_of_def list_del_def log_event_def)
  then obtain s' where
    s': "apply_timeout_ops rearm_env 5 example_ops (initial_state []) = Some s'"
      "timeouts s' = [Timeout 2, Timeout 0]"
    by auto
  note inst = timeout_list_invariant
    [of "[] :: nat list" rearm_env example_ops "initial_state []" 5 s'
        busy_state "Timeout 1" "Timeout 0" busy_state "Timeout 0"]
  have inv': "timeout_inv s'"
    using inst rearm_env_keeps clock ops s'(1) by blast
  have fifo: "precedes (timeouts (snd (uloop_timeout_add busy_state (Timeout 1))))
      (Timeout 0) (Timeout 1)"
    "removeAll (Timeout 1) (timeouts (snd (uloop_timeout_add busy_state (Timeout 1))))
       = timeouts busy_state"
    using inst busy_state_inv busy_state_pending(2) busy_state_timeouts by simp_all
  have cancel: "timeouts (snd (uloop_timeout_cancel busy_state (Timeout 0))) = []"
    using inst busy_state_pending(1) busy_state_timeouts(1) by simp
  show ?thesis
    using rearm_env_keeps clock ops initial_state_inv s' inv' busy_state_inv
      busy_state_pending(1,2) busy_state_timeouts fifo cancel
    by simp
qed

section \<open>Firing the expired timeouts\<close>

lemma timeout_cb_of_leave:
  assumes "callbacks_leave_timeouts e" "timeout_cb_of e t = Some cb"
  shows "timeouts (cb s) = timeouts s \<and> timeout_mem (cb s) = timeout_mem s \<and>
         trace (cb s) = trace s"
  using assms
  by (cases t) (auto simp add: timeout_cb_of_def callbacks_leave_timeouts_def
      handle_global_timeout_def)

lemma process_timeouts_prefix:
  assumes leave: "callbacks_leave_timeouts e"
  shows "timeouts_linked s \<Longrightarrow> length (takeWhile (expired s tv) (timeouts s)) < n \<Longrightarrow>
    \<exists>r s'. uloop_process_timeouts e n tv s = Some (r, s') \<and>
      timeouts s' = dropWhile (expired s tv) (timeouts s) \<and>
      (\<forall>t. timeout_mem s' t =
         (if t \<in> set (takeWhile (expired s tv) (timeouts s))
          then (timeout_mem s t)\<lparr>t_pending := False\<rparr> else timeout_mem s t)) \<and>
      trace s' = trace s @ map (\<lambda>t. Timeout_cb t False False)
         (filter (\<lambda>t. timeout_cb_of e t \<noteq> None) (takeWhile (expired s tv) (timeouts s))) \<and>
      r = (case timeouts s' of [] \<Rightarrow> - 1 | t # rest \<Rightarrow> tv_diff (deadline s t) tv) \<and>
      (r = - 1 \<or> r > 0)"
proof (induction n arbitrary: s)
  case 0
  then show ?case by simp
next
  case (Suc n)
  show ?case
  proof (cases "timeouts s")
    case Nil
    then show ?thesis by simp
  next
    case (Cons t rest)
    show ?thesis
    proof (cases "expired s tv t")
      case False
      then show ?thesis using Cons by (simp add: expired_def deadline_def)
    next
      case True
      have pend: "t_pending (timeout_mem s t)" and notin: "t \<notin> set rest" and dist: "distinct rest"
        using Suc.prems(1) Cons by (auto simp add: timeouts_linked_def)
      define s1 where "s1 = snd (uloop_timeout_cancel s t)"
      have s1: "timeouts s1 = rest"
        "timeout_mem s1 = (timeout_mem s)(t := (timeout_mem s t)\<lparr>t_pending := False\<rparr>)"
        "trace s1 = trace s"
        using pend notin Cons by (simp_all add: s1_def uloop_timeout_cancel_def list_del_def)
      define s2 where "s2 = (case timeout_cb_of e t of None \<Rightarrow> s1
         | Some cb \<Rightarrow> cb (log_event (Timeout_cb t (t_pending (timeout_mem s1 t))
                        (t \<in> set (timeouts s1))) s1))"
      have s2: "timeouts s2 = rest" "timeout_mem s2 = timeout_mem s1"
        "trace s2 = trace s @ (if timeout_cb_of e t \<noteq> None then [Timeout_cb t False False] else [])"
        using s1 notin timeout_cb_of_leave [OF leave]
        by (auto simp add: s2_def log_event_def split: option.splits)
      have step: "uloop_process_timeouts e (Suc n) tv s = uloop_process_timeouts e n tv s2"
        using Cons True
        by (simp add: expired_def deadline_def s1_def s2_def Let_def split: option.splits)
      have linked2: "timeouts_linked s2"
        using Suc.prems(1) Cons s1 s2 by (auto simp add: timeouts_linked_def)
      have dl: "deadline s2 = deadline s"
        using s1 s2 by (auto simp add: deadline_def fun_eq_iff)
      then have ex: "expired s2 tv = expired s tv"
        by (simp add: expired_def fun_eq_iff)
      have fuel: "length (takeWhile (expired s2 tv) (timeouts s2)) < n"
        using Suc.prems(2) Cons True s2 ex by simp
      from Suc.IH [OF linked2 fuel] obtain r s' where raw:
        "uloop_process_timeouts e n tv s2 = Some (r, s')"
        "timeouts s' = dropWhile (expired s2 tv) (timeouts s2)"
        "\<forall>x. timeout_mem s' x =
           (if x \<in> set (takeWhile (expired s2 tv) (timeouts s2))
            then (timeout_mem s2 x)\<lparr>t_pending := False\<rparr> else timeout_mem s2 x)"
        "trace s' = trace s2 @ map (\<lambda>t. Timeout_cb t False False)
           (filter (\<lambda>t. timeout_cb_of e t \<noteq> None) (takeWhile (expired s2 tv) (timeouts s2)))"
        "r = (case timeouts s' of [] \<Rightarrow> - 1 | t # rest \<Rightarrow> tv_diff (deadline s2 t) tv)"
        "r = - 1 \<or> r > 0"
        by blast
      have ih:
        "uloop_process_timeouts e n tv s2 = Some (r, s')"
        "timeouts s' = dropWhile (expired s tv) rest"
        "\<forall>x. timeout_mem s' x =
           (if x \<in> set (takeWhile (expired s tv) rest)
            then (timeout_mem s2 x)\<lparr>t_pending := False\<rparr> else timeout_mem s2 x)"
        "trace s' = trace s2 @ map (\<lambda>t. Timeout_cb t False False)
           (filter (\<lambda>t. timeout_cb_of e t \<noteq> None) (takeWhile (expired s tv) rest))"
        "r = (case timeouts s' of [] \<Rightarrow> - 1 | t # rest \<Rightarrow> tv_diff (deadline s t) tv)"
        "r = - 1 \<or> r > 0"
        using raw unfolding ex dl s2(1) by blast+
      have mem: "\<forall>x. timeout_mem s' x =
         (if x \<in> set (takeWhile (expired s tv) (timeouts s))
          then (timeout_mem s x)\<lparr>t_pending := False\<rparr> else timeout_mem s x)"
        using ih(3) s2(2) s1(2) Cons True by auto
      show ?thesis
        using step ih mem s2(3) Cons True by auto
    qed
  qed
qed

lemma process_timeouts_result:
  "uloop_process_timeouts e n tv s = Some (r, s') \<Longrightarrow>
   (r = - 1 \<and> timeouts s' = []) \<or>
   (r > 0 \<and> (\<exists>t rest. timeouts s' = t # rest \<and> r = tv_diff (deadline s' t) tv))"
proof (induction n arbitrary: s)
  case 0
  then show ?case by simp
next
  case (Suc n)
  show ?case
  proof (cases "timeouts s")
    case Nil
    then show ?thesis using Suc.prems by simp
  next
    case (Cons t rest)
    show ?thesis
    proof (cases "tv_diff (t_time (timeout_mem s t)) tv > 0")
      case True
      then show ?thesis using Suc.prems Cons by (auto simp add: deadline_def)
    next
      case False
      then show ?thesis
        using Suc.prems Cons Suc.IH by (auto simp add: Let_def split: option.splits)
    qed
  qed
qed


lemma timeout_cb_of_keeps_linked:
  assumes "callbacks_keep e timeouts_linked" "timeout_cb_of e t = Some cb" "timeouts_linked s"
  shows "timeouts_linked (cb s)"
  using assms
  by (cases t) (auto simp add: timeout_cb_of_def callbacks_keep_def handle_global_timeout_def
      timeouts_linked_def)

lemma process_timeouts_refines:
  assumes keep: "callbacks_keep e timeouts_linked"
  shows "timeouts_linked s \<Longrightarrow>
    uloop_process_timeouts e n tv s = map_option snd (spec_process_timeouts e n tv s)"
proof (induction n arbitrary: s)
  case 0
  then show ?case by simp
next
  case (Suc n)
  show ?case
  proof (cases "timeouts s")
    case Nil
    then show ?thesis by simp
  next
    case (Cons t rest)
    show ?thesis
    proof (cases "tv_diff (deadline s t) tv > 0")
      case True
      then show ?thesis using Cons by (simp add: deadline_def)
    next
      case False
      have pend: "t_pending (timeout_mem s t)" and notin: "t \<notin> set rest"
        using Suc.prems Cons by (auto simp add: timeouts_linked_def)
      define s1 where "s1 = s\<lparr>timeouts := rest,
          timeout_mem := (timeout_mem s)(t := (timeout_mem s t)\<lparr>t_pending := False\<rparr>)\<rparr>"
      have cancel: "snd (uloop_timeout_cancel s t) = s1"
        using pend notin Cons by (simp add: s1_def uloop_timeout_cancel_def list_del_def)
      have flags: "\<not> t_pending (timeout_mem s1 t)" "t \<notin> set (timeouts s1)"
        using notin by (simp_all add: s1_def)
      have linked1: "timeouts_linked s1"
        using timeout_cancel_linked [OF Suc.prems, of t] cancel by simp
      define s2 where "s2 = (case timeout_cb_of e t of None \<Rightarrow> s1
         | Some cb \<Rightarrow> cb (log_event (Timeout_cb t False False) s1))"
      have linked2: "timeouts_linked s2"
      proof (cases "timeout_cb_of e t")
        case None
        then show ?thesis using linked1 by (simp add: s2_def)
      next
        case (Some cb)
        have "timeouts_linked (log_event (Timeout_cb t False False) s1)"
          using linked1 by (simp add: timeouts_linked_def log_event_def)
        then show ?thesis
          using timeout_cb_of_keeps_linked [OF keep Some] Some by (simp add: s2_def)
      qed
      have code: "uloop_process_timeouts e (Suc n) tv s = uloop_process_timeouts e n tv s2"
        using Cons False cancel flags
        by (simp add: deadline_def s2_def Let_def split: option.splits)
      have spec: "spec_process_timeouts e (Suc n) tv s =
          map_option (\<lambda>(ts, r, s'). (t # ts, r, s')) (spec_process_timeouts e n tv s2)"
        using Cons False unfolding s2_def s1_def by (simp add: Let_def)
      show ?thesis
        unfolding code spec Suc.IH [OF linked2]
        by (cases "spec_process_timeouts e n tv s2") auto
    qed
  qed
qed

lemma three_timeouts_state_eq:
  "timeouts three_timeouts_state = [Timeout 0, Timeout 1, Timeout 2]"
  "timeout_mem three_timeouts_state =
     (\<lambda>t. \<lparr>t_pending = False, t_time = \<lparr>tv_sec = 0, tv_usec = 0\<rparr>\<rparr>)
       (Timeout 0 := \<lparr>t_pending = True, t_time = \<lparr>tv_sec = 0, tv_usec = 500\<rparr>\<rparr>,
        Timeout 1 := \<lparr>t_pending = True, t_time = \<lparr>tv_sec = 0, tv_usec = 100\<rparr>\<rparr>,
        Timeout 2 := \<lparr>t_pending = True, t_time = \<lparr>tv_sec = 0, tv_usec = 5000\<rparr>\<rparr>)"
  "trace three_timeouts_state = []"
  by (simp_all add: three_timeouts_state_def example_ops_def initial_state_def
      uloop_timeout_add_def uloop_timeout_set_def uloop_timeout_cancel_def uloop_gettime_def
      quiet_env_def tv_diff_def c_div_def c_mod_def int64_def Let_def)

lemma chain_env_keeps: "callbacks_keep chain_env timeouts_linked"
  by (auto simp add: callbacks_keep_def chain_env_def split: if_splits
      intro!: timeout_set_linked)

lemma busy_state_linked: "timeouts_linked busy_state"
  using busy_state_inv by (simp add: timeout_inv_def)

lemma chain_fires_both:
  "map_option (\<lambda>(ts, r, s). (ts, r, timeouts s, trace s))
     (spec_process_timeouts chain_env 3 time_0 busy_state)
   = Some ([Timeout 0, Timeout 1], - 1, [],
           [Timeout_cb (Timeout 0) False False, Timeout_cb (Timeout 1) False False])"
  by (simp add: busy_state_def initial_state_def quiet_env_def uloop_timeout_add_def
      uloop_process_add_def uloop_signal_add_def sigaction_get_def sigaction_set_def
      chain_env_def time_0_def numeral_3_eq_3 deadline_def tv_diff_def c_div_def c_mod_def
      int64_def uloop_timeout_set_def uloop_gettime_def timeout_cb_of_def log_event_def Let_def)

text \<open>
  Claim C6 as stated fails: timeouts whose deadline is after the sampled time are fired
  too. At time 0 the timeouts 0 and 1 of \<open>three_timeouts_state\<close> have their deadlines
  500 and 100 microseconds ahead, and both are fired; the result is 5, the milliseconds
  left for timeout 2.
\<close>

theorem process_timeouts_fires_before_deadline:
  "tv_usecs time_0 < tv_usecs (deadline three_timeouts_state (Timeout 0)) \<and>
   tv_usecs time_0 < tv_usecs (deadline three_timeouts_state (Timeout 1)) \<and>
   map_option (\<lambda>(r, s). (r, timeouts s, trace s))
     (uloop_process_timeouts idle_cb_env 3 time_0 three_timeouts_state)
   = Some (5, [Timeout 2],
           [Timeout_cb (Timeout 0) False False, Timeout_cb (Timeout 1) False False])"
  by (simp add: three_timeouts_state_eq deadline_def tv_usecs_def time_0_def idle_cb_env_def
      quiet_env_def eval_nat_numeral tv_diff_def c_div_def int64_def Let_def
      uloop_timeout_cancel_def list_del_def timeout_cb_of_def log_event_def)

text \<open>
  Claim C6, amended. With the sampled time \<open>tv\<close>, \<open>uloop_process_timeouts\<close> does
  what \<open>spec_process_timeouts\<close> says, whatever the callbacks do to the timeouts: as
  long as the timeout at the head of the list has a deadline for which \<open>tv_diff\<close> with
  \<open>tv\<close> is not positive (without overflow: the deadline is less than a millisecond
  after \<open>tv\<close>), that timeout is unlinked and its \<open>pending\<close> flag is cleared, and
  then its callback is invoked; a timeout that a callback links at the head with such a
  deadline is fired in the same call. It returns \<open>tv_diff\<close> of the first head for
  which it is positive, the milliseconds until the deadline of the timeout then at the
  head, or -1 when the list is empty. The list is taken to link each pending timeout
  once, and the callbacks to keep it so, as they do when they use the functions of the
  loop; \<open>n\<close> bounds the iterations. When the callbacks leave the timeouts alone, the
  timeouts fired are those of the list before the first one for which \<open>tv_diff\<close> is
  positive, in the order of the list, the others stay as they are, and \<open>n\<close>
  iterations are enough when \<open>n\<close> is more than the number of timeouts fired.
\<close>

theorem process_timeouts_fires_expired:
  "(callbacks_keep e timeouts_linked \<and> timeouts_linked s \<longrightarrow>
      uloop_process_timeouts e n tv s = map_option snd (spec_process_timeouts e n tv s)) \<and>
   (uloop_process_timeouts e1 n1 tv1 s1 = Some (r1, s1') \<longrightarrow>
      (r1 = - 1 \<and> timeouts s1' = []) \<or>
      (r1 > 0 \<and> (\<exists>t rest. timeouts s1' = t # rest \<and> r1 = tv_diff (deadline s1' t) tv1))) \<and>
   (callbacks_leave_timeouts e2 \<and> timeouts_linked s2 \<and>
    length (takeWhile (expired s2 tv2) (timeouts s2)) < n2 \<longrightarrow>
      (\<exists>r s'. uloop_process_timeouts e2 n2 tv2 s2 = Some (r, s') \<and>
         timeouts s' = dropWhile (expired s2 tv2) (timeouts s2) \<and>
         (\<forall>t. timeout_mem s' t =
            (if t \<in> set (takeWhile (expired s2 tv2) (timeouts s2))
             then (timeout_mem s2 t)\<lparr>t_pending := False\<rparr> else timeout_mem s2 t)) \<and>
         trace s' = trace s2 @ map (\<lambda>t. Timeout_cb t False False)
            (filter (\<lambda>t. timeout_cb_of e2 t \<noteq> None)
               (takeWhile (expired s2 tv2) (timeouts s2))) \<and>
         r = (case timeouts s' of [] \<Rightarrow> - 1 | t # rest \<Rightarrow> tv_diff (deadline s2 t) tv2) \<and>
         (r = - 1 \<or> r > 0)))"
proof (intro conjI impI)
  assume "callbacks_keep e timeouts_linked \<and> timeouts_linked s"
  then show "uloop_process_timeouts e n tv s = map_option snd (spec_process_timeouts e n tv s)"
    using process_timeouts_refines by blast
next
  assume "uloop_process_timeouts e1 n1 tv1 s1 = Some (r1, s1')"
  then show "(r1 = - 1 \<and> timeouts s1' = []) \<or>
      (r1 > 0 \<and> (\<exists>t rest. timeouts s1' = t # rest \<and> r1 = tv_diff (deadline s1' t) tv1))"
    by (rule process_timeouts_result)
next
  assume a: "callbacks_leave_timeouts e2 \<and> timeouts_linked s2 \<and>
    length (takeWhile (expired s2 tv2) (timeouts s2)) < n2"
  show "\<exists>r s'. uloop_process_timeouts e2 n2 tv2 s2 = Some (r, s') \<and>
         timeouts s' = dropWhile (expired s2 tv2) (timeouts s2) \<and>
         (\<forall>t. timeout_mem s' t =
            (if t \<in> set (takeWhile (expired s2 tv2) (timeouts s2))
             then (timeout_mem s2 t)\<lparr>t_pending := False\<rparr> else timeout_mem s2 t)) \<and>
         trace s' = trace s2 @ map (\<lambda>t. Timeout_cb t False False)
            (filter (\<lambda>t. timeout_cb_of e2 t \<noteq> None)
               (takeWhile (expired s2 tv2) (timeouts s2))) \<and>
         r = (case timeouts s' of [] \<Rightarrow> - 1 | t # rest \<Rightarrow> tv_diff (deadline s2 t) tv2) \<and>
         (r = - 1 \<or> r > 0)"
    using a process_timeouts_prefix [of e2 s2 tv2 n2] by blast
qed

theorem process_timeouts_fires_expired_witness:
  "callbacks_keep chain_env timeouts_linked \<and>
   timeouts_linked busy_state \<and>
   timeouts busy_state = [Timeout 0] \<and>
   map_option (\<lambda>(ts, r, s). (ts, r, timeouts s, trace s))
     (spec_process_timeouts chain_env 3 time_0 busy_state)
   = Some ([Timeout 0, Timeout 1], - 1, [],
           [Timeout_cb (Timeout 0) False False, Timeout_cb (Timeout 1) False False]) \<and>
   map_option (\<lambda>(r, s). (r, timeouts s, trace s))
     (uloop_process_timeouts chain_env 3 time_0 busy_state)
   = Some (- 1, [],
           [Timeout_cb (Timeout 0) False False, Timeout_cb (Timeout 1) False False]) \<and>
   callbacks_leave_timeouts idle_cb_env \<and>
   timeouts_linked three_timeouts_state \<and>
   takeWhile (expired three_timeouts_state time_0) (timeouts three_timeouts_state)
     = [Timeout 0, Timeout 1] \<and>
   (\<exists>s'. uloop_process_timeouts idle_cb_env 3 time_0 three_timeouts_state = Some (5, s') \<and>
      timeouts s' = [Timeout 2] \<and>
      tv_diff (deadline s' (Timeout 2)) time_0 = 5 \<and>
      \<not> t_pending (timeout_mem s' (Timeout 0)) \<and>
      \<not> t_pending (timeout_mem s' (Timeout 1)) \<and>
      t_pending (timeout_mem s' (Timeout 2)) \<and>
      trace s' = [Timeout_cb (Timeout 0) False False, Timeout_cb (Timeout 1) False False])"
proof -
  have leave: "callbacks_leave_timeouts idle_cb_env"
    by (simp add: callbacks_leave_timeouts_def idle_cb_env_def)
  have linked: "timeouts_linked three_timeouts_state"
    by (auto simp add: timeouts_linked_def three_timeouts_state_eq)
  have ex: "expired three_timeouts_state time_0 (Timeout 0)"
    "expired three_timeouts_state time_0 (Timeout 1)"
    "\<not> expired three_timeouts_state time_0 (Timeout 2)"
    by (simp_all add: expired_def deadline_def three_timeouts_state_eq time_0_def tv_diff_def
        c_div_def int64_def)
  have fired: "takeWhile (expired three_timeouts_state time_0) (timeouts three_timeouts_state)
     = [Timeout 0, Timeout 1]"
    and left: "dropWhile (expired three_timeouts_state time_0) (timeouts three_timeouts_state)
     = [Timeout 2]"
    using ex by (simp_all add: three_timeouts_state_eq)
  have fuel: "length (takeWhile (expired three_timeouts_state time_0)
      (timeouts three_timeouts_state)) < 3"
    using fired by simp
  have cbs: "timeout_cb_of idle_cb_env (Timeout 0) \<noteq> None"
    "timeout_cb_of idle_cb_env (Timeout 1) \<noteq> None"
    by (simp_all add: timeout_cb_of_def idle_cb_env_def)
  have five: "tv_diff (deadline three_timeouts_state (Timeout 2)) time_0 = 5"
    by (simp add: deadline_def three_timeouts_state_eq time_0_def tv_diff_def c_div_def
        int64_def)
  obtain ts r0 s0 where spec0: "spec_process_timeouts chain_env 3 time_0 busy_state
      = Some (ts, r0, s0)"
    and s0: "ts = [Timeout 0, Timeout 1]" "r0 = - 1" "timeouts s0 = []"
      "trace s0 = [Timeout_cb (Timeout 0) False False, Timeout_cb (Timeout 1) False False]"
    using chain_fires_both by auto
  note inst = process_timeouts_fires_expired
    [of chain_env busy_state 3 time_0 idle_cb_env 3 time_0 three_timeouts_state 5 _
        idle_cb_env three_timeouts_state time_0 3]
  have code0: "uloop_process_timeouts chain_env 3 time_0 busy_state = Some (- 1, s0)"
    using inst chain_env_keeps busy_state_linked spec0 s0(2) by simp
  from inst leave linked fuel
  obtain r s' where res:
    "uloop_process_timeouts idle_cb_env 3 time_0 three_timeouts_state = Some (r, s')"
    "timeouts s' = [Timeout 2]"
    "\<forall>t. timeout_mem s' t =
       (if t \<in> set [Timeout 0, Timeout 1]
        then (timeout_mem three_timeouts_state t)\<lparr>t_pending := False\<rparr>
        else timeout_mem three_timeouts_state t)"
    "trace s' = trace three_timeouts_state @ map (\<lambda>t. Timeout_cb t False False)
       (filter (\<lambda>t. timeout_cb_of idle_cb_env t \<noteq> None) [Timeout 0, Timeout 1])"
    "r = (case timeouts s' of [] \<Rightarrow> - 1
          | t # rest \<Rightarrow> tv_diff (deadline three_timeouts_state t) time_0)"
    unfolding fired left by blast
  have r: "r = 5" using res(5) res(2) five by simp
  have head: "tv_diff (deadline s' (Timeout 2)) time_0 = 5"
    using process_timeouts_fires_expired
      [of chain_env busy_state 3 time_0 idle_cb_env 3 time_0 three_timeouts_state 5 s'
          idle_cb_env three_timeouts_state time_0 3] res(1,2) r
    by simp
  have flags: "\<not> t_pending (timeout_mem s' (Timeout 0))"
    "\<not> t_pending (timeout_mem s' (Timeout 1))" "t_pending (timeout_mem s' (Timeout 2))"
    using res(3) by (simp_all add: three_timeouts_state_eq)
  have tr: "trace s' = [Timeout_cb (Timeout 0) False False, Timeout_cb (Timeout 1) False False]"
    using res(4) cbs by (simp add: three_timeouts_state_eq)
  show ?thesis
    using chain_env_keeps busy_state_linked busy_state_timeouts(1) chain_fires_both code0 s0
      leave linked fired res(1,2) r head flags tr
    by auto
qed

section \<open>Reaping the watchers of a child\<close>










section \<open>Edge-triggered watchers\<close>

lemma fd_stack_mark_found:
  "\<forall>x\<in>set pre. sf_fd x \<noteq> Some f \<Longrightarrow> sf_fd fr = Some f \<Longrightarrow>
   fd_stack_mark f ev b (pre @ fr # post) =
     (True, pre @ (if sint ev < 0 then fr\<lparr>sf_fd := None\<rparr>
                   else fr\<lparr>sf_events := sf_events fr OR ev OR b\<rparr>) # post)"
  by (induction pre) auto

lemma fd_stack_event_found:
  assumes "f_flags (fd_mem s f) AND ULOOP_EDGE_TRIGGER e \<noteq> 0"
    "fd_stack s = pre @ fr # post" "sf_fd fr = Some f" "\<forall>x\<in>set pre. sf_fd x \<noteq> Some f"
  shows "uloop_fd_stack_event e s f ev =
     (True, s\<lparr>fd_stack := pre @ (if sint ev < 0 then fr\<lparr>sf_fd := None\<rparr>
                   else fr\<lparr>sf_events := sf_events fr OR ev OR ULOOP_EVENT_BUFFERED e\<rparr>) # post\<rparr>)"
  using assms fd_stack_mark_found [of pre f fr ev "ULOOP_EVENT_BUFFERED e" post]
  by (simp add: uloop_fd_stack_event_def)

lemma run_events_folds:
  assumes "f_flags (fd_mem s f) AND ULOOP_EDGE_TRIGGER e \<noteq> 0"
    "fd_stack s = pre @ fr # post" "sf_fd fr = Some f" "\<forall>x\<in>set pre. sf_fd x \<noteq> Some f"
    "cur_nfds s > 0" "cur_fds s (cur_fd s) = \<lparr>ev_fd = Some f, ev_events = ev\<rparr>"
    "fd_cb e f \<noteq> None" "0 \<le> sint ev"
  shows "uloop_run_events_while e (Suc n) s =
     uloop_run_events_while e n
       (s\<lparr>cur_fd := cur_fd s + 1, cur_nfds := cur_nfds s - 1,
          fd_stack := pre @ fr\<lparr>sf_events := sf_events fr OR ev OR ULOOP_EVENT_BUFFERED e\<rparr> # post\<rparr>)"
proof -
  let ?s1 = "s\<lparr>cur_fd := cur_fd s + 1, cur_nfds := cur_nfds s - 1\<rparr>"
  have "uloop_fd_stack_event e ?s1 f ev =
     (True, ?s1\<lparr>fd_stack := pre @ fr\<lparr>sf_events := sf_events fr OR ev OR ULOOP_EVENT_BUFFERED e\<rparr> # post\<rparr>)"
    using fd_stack_event_found [of ?s1 f e pre fr post ev] assms by simp
  then show ?thesis
    using assms(5,6,7) by (auto simp add: Let_def)
qed

lemma fd_delete_marks_frame:
  assumes "f_flags (fd_mem s f) AND ULOOP_EDGE_TRIGGER e \<noteq> 0"
    "fd_stack s = pre @ fr # post" "sf_fd fr = Some f" "\<forall>x\<in>set pre. sf_fd x \<noteq> Some f"
    "f_registered (fd_mem s f)" "backend_leaves_stack e"
  shows "fd_stack (snd (uloop_fd_delete e s f)) = pre @ fr\<lparr>sf_fd := None\<rparr> # post"
proof -
  define s1 where "s1 = s\<lparr>cur_fds :=
                  fold (\<lambda>i a. if ev_fd (a (cur_fd s + i)) \<noteq> Some f then a
                              else a(cur_fd s + i := (a (cur_fd s + i))\<lparr>ev_fd := None\<rparr>))
                    [0..<nat (cur_nfds s)] (cur_fds s)\<rparr>"
  define s2 where "s2 = (case uloop_fd_set_cb e of None \<Rightarrow> s1 | Some hook \<Rightarrow> hook f 0 s1)"
  define s3 where "s3 = s2\<lparr>fd_mem := (fd_mem s2)(f := (fd_mem s2 f)\<lparr>f_registered := False\<rparr>)\<rparr>"
  have s2: "fd_stack s2 = fd_stack s" "fd_mem s2 = fd_mem s"
    using assms(6) by (auto simp add: s2_def s1_def backend_leaves_stack_def split: option.splits)
  have s3: "fd_stack s3 = pre @ fr # post" "f_flags (fd_mem s3 f) AND ULOOP_EDGE_TRIGGER e \<noteq> 0"
    using s2 assms(1,2) by (simp_all add: s3_def)
  have m1: "sint (- 1 :: 32 word) < 0" by simp
  have ev: "uloop_fd_stack_event e s3 f (- 1) = (True, s3\<lparr>fd_stack := pre @ fr\<lparr>sf_fd := None\<rparr> # post\<rparr>)"
    using fd_stack_event_found [OF s3(2) s3(1) assms(3,4), of "- 1"] m1 by simp
  have "uloop_fd_delete e s f =
      (case backend_fd_delete e f (snd (uloop_fd_stack_event e s3 f (- 1))) of
         (ret, s5) \<Rightarrow> (ret, s5\<lparr>fd_mem := (fd_mem s5)(f := (fd_mem s5 f)\<lparr>f_flags := 0\<rparr>)\<rparr>))"
    unfolding uloop_fd_delete_def s3_def s2_def s1_def Let_def
    using assms(5) by (simp add: case_prod_beta)
  then show ?thesis
    using ev assms(6) by (simp add: backend_leaves_stack_def case_prod_beta)
qed

lemma fd_cb_loop_step:
  assumes "fd_stack s = fr # post"
    "cb ev (log_event (Fd_cb f ev) (s\<lparr>fd_stack := fr\<lparr>sf_events := 0\<rparr> # post\<rparr>)) = s2"
    "fd_stack s2 = fr2 # post2"
  shows "uloop_fd_cb_loop e (Suc n) f cb ev s =
     (if sf_fd fr2 \<noteq> None \<and> sf_events fr2 AND ULOOP_EVENT_MASK e \<noteq> 0
      then uloop_fd_cb_loop e n f cb (sf_events fr2 AND ULOOP_EVENT_MASK e) s2
      else Some s2)"
  using assms by (simp add: Let_def)

lemma fd_cb_loop_delete:
  assumes "f_flags (fd_mem s f) AND ULOOP_EDGE_TRIGGER e \<noteq> 0"
    "fd_stack s = fr # post" "sf_fd fr = Some f" "f_registered (fd_mem s f)"
    "backend_leaves_stack e"
    "cb ev (log_event (Fd_cb f ev) (s\<lparr>fd_stack := fr\<lparr>sf_events := 0\<rparr> # post\<rparr>))
       = snd (uloop_fd_delete e
           (log_event (Fd_cb f ev) (s\<lparr>fd_stack := fr\<lparr>sf_events := 0\<rparr> # post\<rparr>)) f)"
  shows "uloop_fd_cb_loop e (Suc n) f cb ev s =
     Some (cb ev (log_event (Fd_cb f ev) (s\<lparr>fd_stack := fr\<lparr>sf_events := 0\<rparr> # post\<rparr>)))"
proof -
  let ?s_in = "log_event (Fd_cb f ev) (s\<lparr>fd_stack := fr\<lparr>sf_events := 0\<rparr> # post\<rparr>)"
  have "fd_stack (snd (uloop_fd_delete e ?s_in f))
      = [] @ (fr\<lparr>sf_events := 0\<rparr>)\<lparr>sf_fd := None\<rparr> # post"
    using assms(1,3,4,5)
    by (intro fd_delete_marks_frame) (simp_all add: log_event_def)
  then have top: "fd_stack (cb ev ?s_in) = (fr\<lparr>sf_events := 0\<rparr>)\<lparr>sf_fd := None\<rparr> # post"
    using assms(6) by simp
  show ?thesis
    using fd_cb_loop_step [of s fr post cb ev f "cb ev ?s_in"
        "(fr\<lparr>sf_events := 0\<rparr>)\<lparr>sf_fd := None\<rparr>" post e n] assms(2) top
    by simp
qed

lemma fuel_5: "(5::nat) = Suc (Suc (Suc (Suc (Suc 0))))"
  by simp

lemma edge_state_eq:
  "fd_mem edge_state =
     (\<lambda>f. \<lparr>f_registered = False, f_flags = 0, f_eof = False, f_error = False\<rparr>)
     (0 := \<lparr>f_registered = True, f_flags = 5, f_eof = False, f_error = False\<rparr>)"
  "fd_stack edge_state = []" "cur_nfds edge_state = 0" "trace edge_state = []"
  "world edge_state = [[(0, 1)], [(0, 1)]]"
  by (simp_all add: edge_state_def edge_env0_def quiet_env_def initial_state_def
      uloop_fd_add_def Let_def)

lemma edge_env0_eq:
  "ULOOP_EDGE_TRIGGER edge_env0 = 4" "ULOOP_EVENT_BUFFERED edge_env0 = 16"
  "ULOOP_EVENT_MASK edge_env0 = 3" "fd_cb edge_env0 = (\<lambda>f. Some (\<lambda>ev s. s))"
  "uloop_fetch_events edge_env0 = batch_fetch" "uloop_fd_set_cb edge_env0 = None"
  "backend_fd_delete edge_env0 = (\<lambda>fd s. (0, s))"
  by (simp_all add: edge_env0_def quiet_env_def)

lemma edge_backend: "backend_leaves_stack edge_env0"
  by (simp add: backend_leaves_stack_def edge_env0_eq)

text \<open>
  Claim C4. Let the watcher \<open>f\<close> be edge-triggered and let a frame of \<open>f\<close> be on the
  stack, the innermost of its frames: the callback of \<open>f\<close> is running. First, when the
  next fetched event is one for \<open>f\<close> (with event bits that are not negative as an
  \<open>int\<close>), \<open>uloop_run_events\<close> takes it from the batch, ORs its bits and
  \<open>ULOOP_EVENT_BUFFERED\<close> into the frame and goes on with the rest of the batch: the
  callback is not entered. Second, when the callback returns, it is called again with
  the buffered bits that \<open>ULOOP_EVENT_MASK\<close> lets through if the frame still has its
  watcher and there are such bits, and the loop ends otherwise. Third,
  \<open>uloop_fd_delete\<close> of the registered \<open>f\<close> clears the watcher of the frame, and so a
  callback that deletes its own watcher is not called again. The backend and the hook
  are taken to leave the stack alone.
\<close>

theorem edge_trigger_fold_and_reinvoke:
  "(f_flags (fd_mem s f) AND ULOOP_EDGE_TRIGGER e \<noteq> 0 \<and>
    fd_stack s = pre @ fr # post \<and> sf_fd fr = Some f \<and> (\<forall>x\<in>set pre. sf_fd x \<noteq> Some f) \<and>
    cur_nfds s > 0 \<and> cur_fds s (cur_fd s) = \<lparr>ev_fd = Some f, ev_events = ev\<rparr> \<and>
    fd_cb e f \<noteq> None \<and> 0 \<le> sint ev
    \<longrightarrow> uloop_run_events_while e (Suc n) s =
        uloop_run_events_while e n
          (s\<lparr>cur_fd := cur_fd s + 1, cur_nfds := cur_nfds s - 1,
             fd_stack := pre @ fr\<lparr>sf_events := sf_events fr OR ev OR ULOOP_EVENT_BUFFERED e\<rparr>
                           # post\<rparr>)) \<and>
   (fd_stack s1 = fr1 # post1 \<and>
    cb ev1 (log_event (Fd_cb f1 ev1) (s1\<lparr>fd_stack := fr1\<lparr>sf_events := 0\<rparr> # post1\<rparr>)) = s2 \<and>
    fd_stack s2 = fr2 # post2
    \<longrightarrow> uloop_fd_cb_loop e (Suc n) f1 cb ev1 s1 =
        (if sf_fd fr2 \<noteq> None \<and> sf_events fr2 AND ULOOP_EVENT_MASK e \<noteq> 0
         then uloop_fd_cb_loop e n f1 cb (sf_events fr2 AND ULOOP_EVENT_MASK e) s2
         else Some s2)) \<and>
   (f_flags (fd_mem s3 f3) AND ULOOP_EDGE_TRIGGER e \<noteq> 0 \<and>
    fd_stack s3 = pre3 @ fr3 # post3 \<and> sf_fd fr3 = Some f3 \<and>
    (\<forall>x\<in>set pre3. sf_fd x \<noteq> Some f3) \<and>
    f_registered (fd_mem s3 f3) \<and> backend_leaves_stack e
    \<longrightarrow> fd_stack (snd (uloop_fd_delete e s3 f3)) = pre3 @ fr3\<lparr>sf_fd := None\<rparr> # post3) \<and>
   (f_flags (fd_mem s4 f4) AND ULOOP_EDGE_TRIGGER e \<noteq> 0 \<and>
    fd_stack s4 = fr4 # post4 \<and> sf_fd fr4 = Some f4 \<and>
    f_registered (fd_mem s4 f4) \<and> backend_leaves_stack e \<and>
    cb4 ev4 (log_event (Fd_cb f4 ev4) (s4\<lparr>fd_stack := fr4\<lparr>sf_events := 0\<rparr> # post4\<rparr>))
      = snd (uloop_fd_delete e
          (log_event (Fd_cb f4 ev4) (s4\<lparr>fd_stack := fr4\<lparr>sf_events := 0\<rparr> # post4\<rparr>)) f4)
    \<longrightarrow> uloop_fd_cb_loop e (Suc n) f4 cb4 ev4 s4 =
        Some (cb4 ev4 (log_event (Fd_cb f4 ev4) (s4\<lparr>fd_stack := fr4\<lparr>sf_events := 0\<rparr> # post4\<rparr>))))"
  using run_events_folds [of s f e pre fr post ev n]
    fd_cb_loop_step [of s1 fr1 post1 cb ev1 f1 s2 fr2 post2 e n]
    fd_delete_marks_frame [of s3 f3 e pre3 fr3 post3]
    fd_cb_loop_delete [of s4 f4 e fr4 post4 cb4 ev4 n]
  by blast

theorem edge_trigger_fold_and_reinvoke_witness:
  "f_flags (fd_mem edge_busy_state 0) AND ULOOP_EDGE_TRIGGER edge_env0 \<noteq> 0 \<and>
   fd_stack edge_busy_state = [\<lparr>sf_fd = Some 0, sf_events = 0\<rparr>] \<and>
   0 < cur_nfds edge_busy_state \<and>
   cur_fds edge_busy_state (cur_fd edge_busy_state) = \<lparr>ev_fd = Some 0, ev_events = 1\<rparr> \<and>
   fd_cb edge_env0 0 \<noteq> None \<and>
   uloop_run_events_while edge_env0 2 edge_busy_state =
     Some (edge_busy_state\<lparr>cur_fd := 1, cur_nfds := 0,
             fd_stack := [\<lparr>sf_fd = Some 0, sf_events = 17\<rparr>]\<rparr>) \<and>
   fd_stack edge_served_state = [\<lparr>sf_fd = Some 0, sf_events = 0\<rparr>] \<and>
   fd_stack (edge_cb 1 (log_event (Fd_cb 0 1) edge_served_state))
     = [\<lparr>sf_fd = Some 0, sf_events = 17\<rparr>] \<and>
   uloop_fd_cb_loop edge_env0 2 0 edge_cb 1 edge_served_state =
     uloop_fd_cb_loop edge_env0 1 0 edge_cb 1
       (edge_cb 1 (log_event (Fd_cb 0 1) edge_served_state)) \<and>
   f_registered (fd_mem edge_busy_state 0) \<and> backend_leaves_stack edge_env0 \<and>
   fd_stack (snd (uloop_fd_delete edge_env0 edge_busy_state 0))
     = [\<lparr>sf_fd = None, sf_events = 0\<rparr>] \<and>
   uloop_fd_cb_loop edge_env0 2 0 edge_cb 1 edge_busy_state =
     Some (edge_cb 1 (log_event (Fd_cb 0 1) edge_busy_state)) \<and>
   map_option (\<lambda>s. (trace s, fd_stack s, f_registered (fd_mem s 0)))
     (uloop_run_events edge_env 5 0 edge_state)
     = Some ([Fetch_events 0, Fd_cb 0 1, Fetch_events 0, Fd_cb 0 1], [], False)"
proof -
  let ?fr = "\<lparr>sf_fd = Some 0, sf_events = 0\<rparr>"
  have busy: "f_flags (fd_mem edge_busy_state 0) AND ULOOP_EDGE_TRIGGER edge_env0 \<noteq> 0"
    "fd_stack edge_busy_state = [] @ ?fr # []"
    "0 < cur_nfds edge_busy_state"
    "cur_fds edge_busy_state (cur_fd edge_busy_state) = \<lparr>ev_fd = Some 0, ev_events = 1\<rparr>"
    "f_registered (fd_mem edge_busy_state 0)" "world edge_busy_state = []"
    "cur_fd edge_busy_state = 0" "cur_nfds edge_busy_state = 1"
    by (simp_all add: edge_busy_state_def edge_state_eq edge_env0_eq)
  have cb0: "fd_cb edge_env0 0 \<noteq> None" by (simp add: edge_env0_eq)
  have pos: "0 \<le> sint (1 :: 32 word)" by simp
  have served: "fd_stack edge_served_state = ?fr # []"
    by (simp add: edge_served_state_def)
  have folded: "fd_stack (edge_cb 1 (log_event (Fd_cb 0 1)
      (edge_served_state\<lparr>fd_stack := ?fr\<lparr>sf_events := 0\<rparr> # []\<rparr>)))
     = \<lparr>sf_fd = Some 0, sf_events = 17\<rparr> # []"
    by (simp add: edge_cb_def edge_served_state_def edge_state_eq edge_env0_eq
        uloop_run_events_def batch_fetch_def log_event_def fuel_5 Let_def
        uloop_fd_stack_event_def)
  have same: "edge_served_state\<lparr>fd_stack := ?fr\<lparr>sf_events := 0\<rparr> # []\<rparr> = edge_served_state"
    "edge_busy_state\<lparr>fd_stack := ?fr\<lparr>sf_events := 0\<rparr> # []\<rparr> = edge_busy_state"
    by (simp_all add: edge_served_state_def edge_busy_state_def)
  have del: "edge_cb 1 (log_event (Fd_cb 0 1)
      (edge_busy_state\<lparr>fd_stack := ?fr\<lparr>sf_events := 0\<rparr> # []\<rparr>))
     = snd (uloop_fd_delete edge_env0 (log_event (Fd_cb 0 1)
         (edge_busy_state\<lparr>fd_stack := ?fr\<lparr>sf_events := 0\<rparr> # []\<rparr>)) 0)"
    using busy(6) by (simp add: edge_cb_def log_event_def)
  note inst = edge_trigger_fold_and_reinvoke
    [of edge_busy_state 0 edge_env0 "[]" ?fr "[]" 1 "Suc 0"
        edge_served_state ?fr "[]" edge_cb 1 0
        "edge_cb 1 (log_event (Fd_cb 0 1) (edge_served_state\<lparr>fd_stack := ?fr\<lparr>sf_events := 0\<rparr> # []\<rparr>))"
        "\<lparr>sf_fd = Some 0, sf_events = 17\<rparr>" "[]"
        edge_busy_state 0 "[]" ?fr "[]"
        edge_busy_state 0 ?fr "[]" edge_cb 1]
  have c1: "uloop_run_events_while edge_env0 (Suc (Suc 0)) edge_busy_state =
      uloop_run_events_while edge_env0 (Suc 0)
          (edge_busy_state\<lparr>cur_fd := cur_fd edge_busy_state + 1,
             cur_nfds := cur_nfds edge_busy_state - 1,
             fd_stack := [] @ ?fr\<lparr>sf_events := sf_events ?fr OR 1 OR ULOOP_EVENT_BUFFERED edge_env0\<rparr>
                           # []\<rparr>)"
    using inst busy cb0 pos by simp
  have c1': "uloop_run_events_while edge_env0 2 edge_busy_state =
     Some (edge_busy_state\<lparr>cur_fd := 1, cur_nfds := 0,
             fd_stack := [\<lparr>sf_fd = Some 0, sf_events = 17\<rparr>]\<rparr>)"
    using c1 busy(7,8) by (simp add: edge_env0_eq numeral_2_eq_2)
  have c2: "uloop_fd_cb_loop edge_env0 (Suc (Suc 0)) 0 edge_cb 1 edge_served_state =
     uloop_fd_cb_loop edge_env0 (Suc 0) 0 edge_cb 1
       (edge_cb 1 (log_event (Fd_cb 0 1) edge_served_state))"
    using inst served folded unfolding same by (simp add: edge_env0_eq)
  have c3: "fd_stack (snd (uloop_fd_delete edge_env0 edge_busy_state 0))
     = [\<lparr>sf_fd = None, sf_events = 0\<rparr>]"
    using inst busy edge_backend by simp
  have c4: "uloop_fd_cb_loop edge_env0 (Suc (Suc 0)) 0 edge_cb 1 edge_busy_state =
     Some (edge_cb 1 (log_event (Fd_cb 0 1) edge_busy_state))"
    using inst busy(1,5) busy(2) edge_backend del unfolding same by simp
  have scenario: "map_option (\<lambda>s. (trace s, fd_stack s, f_registered (fd_mem s 0)))
     (uloop_run_events edge_env 5 0 edge_state)
     = Some ([Fetch_events 0, Fd_cb 0 1, Fetch_events 0, Fd_cb 0 1], [], False)"
    by (simp add: uloop_run_events_def edge_state_eq edge_env_def edge_cb_def edge_env0_eq
        batch_fetch_def log_event_def fuel_5 Let_def
        uloop_fd_stack_event_def uloop_fd_delete_def)
  show ?thesis
    using busy(1,3,4,5) busy(2) cb0 c1' served folded c2 c3 c4 edge_backend scenario
    unfolding same by (simp add: numeral_2_eq_2)
qed

section \<open>One iteration of the main loop\<close>

lemma fd_stack_mark_trace:
  "trace (snd (uloop_fd_stack_event e s f ev)) = trace s"
  by (simp add: uloop_fd_stack_event_def split: prod.splits)

lemma fd_stack_event_cur_nfds:
  "cur_nfds (snd (uloop_fd_stack_event e s f ev)) = cur_nfds s"
  by (simp add: uloop_fd_stack_event_def split: prod.splits)

lemma fd_cb_loop_once:
  assumes "dispatch_quiet e" "fd_cb e f = Some cb" "fd_stack s = fr # rest"
  shows "uloop_fd_cb_loop e (Suc n) f cb ev s =
     Some (cb ev (log_event (Fd_cb f ev) (s\<lparr>fd_stack := fr\<lparr>sf_events := 0\<rparr> # rest\<rparr>)))"
proof -
  let ?s1 = "cb ev (log_event (Fd_cb f ev) (s\<lparr>fd_stack := fr\<lparr>sf_events := 0\<rparr> # rest\<rparr>))"
  have "map sf_events (fd_stack ?s1) = 0 # map sf_events rest"
    using assms(1,2) by (simp add: dispatch_quiet_def log_event_def)
  then obtain fr1 rest1 where st: "fd_stack ?s1 = fr1 # rest1" and ev: "sf_events fr1 = 0"
    by (cases "fd_stack ?s1") auto
  show ?thesis
    using assms(3) st ev by (simp add: Let_def)
qed

lemma run_events_while_trace:
  assumes "dispatch_quiet e"
  shows "nat (cur_nfds s) + 1 < n \<Longrightarrow>
    \<exists>s'. uloop_run_events_while e n s = Some s' \<and>
      (trace s' = trace s \<or> (\<exists>f ev. trace s' = trace s @ [Fd_cb f ev]))"
proof (induction n arbitrary: s)
  case 0
  then show ?case by simp
next
  case (Suc n)
  show ?case
  proof (cases "cur_nfds s > 0")
    case False
    then show ?thesis by simp
  next
    case True
    let ?cur = "cur_fds s (cur_fd s)"
    let ?s1 = "s\<lparr>cur_fd := cur_fd s + 1, cur_nfds := cur_nfds s - 1\<rparr>"
    have fuel1: "nat (cur_nfds ?s1) + 1 < n"
      using Suc.prems True by simp
    show ?thesis
    proof (cases "ev_fd ?cur")
      case None
      then have "uloop_run_events_while e (Suc n) s = uloop_run_events_while e n ?s1"
        using True by (simp add: Let_def)
      then show ?thesis using Suc.IH [OF fuel1] by simp
    next
      case (Some fd)
      show ?thesis
      proof (cases "fd_cb e fd")
        case None
        then have "uloop_run_events_while e (Suc n) s = uloop_run_events_while e n ?s1"
          using True Some by (simp add: Let_def)
        then show ?thesis using Suc.IH [OF fuel1] by simp
      next
        case (Some cb)
        obtain b s2 where ev: "uloop_fd_stack_event e ?s1 fd (ev_events ?cur) = (b, s2)"
          by (cases "uloop_fd_stack_event e ?s1 fd (ev_events ?cur)")
        have tr2: "trace s2 = trace s"
          using fd_stack_mark_trace [of e ?s1 fd "ev_events ?cur"] ev by simp
        have nfds2: "cur_nfds s2 = cur_nfds ?s1"
          using fd_stack_event_cur_nfds [of e ?s1 fd "ev_events ?cur"] ev by simp
        show ?thesis
        proof (cases b)
          case True
          then have "uloop_run_events_while e (Suc n) s = uloop_run_events_while e n s2"
            using \<open>cur_nfds s > 0\<close> \<open>ev_fd ?cur = Some fd\<close> Some ev
            by (simp add: Let_def)
          moreover have "nat (cur_nfds s2) + 1 < n" using fuel1 nfds2 by simp
          ultimately show ?thesis using Suc.IH [of s2] tr2 by simp
        next
          case False
          let ?s3 = "s2\<lparr>fd_stack := \<lparr>sf_fd = Some fd, sf_events = 0\<rparr> # fd_stack s2\<rparr>"
          obtain m where n: "n = Suc m" using fuel1 by (cases n) auto
          have once: "uloop_fd_cb_loop e n fd cb (ev_events ?cur) ?s3 =
              Some (cb (ev_events ?cur) (log_event (Fd_cb fd (ev_events ?cur))
                (?s3\<lparr>fd_stack := \<lparr>sf_fd = Some fd, sf_events = 0\<rparr>\<lparr>sf_events := 0\<rparr> # fd_stack s2\<rparr>)))"
            unfolding n by (rule fd_cb_loop_once [OF assms Some]) simp
          have run: "uloop_run_events_while e (Suc n) s =
              (case uloop_fd_cb_loop e n fd cb (ev_events ?cur) ?s3 of
                 None \<Rightarrow> None | Some s3 \<Rightarrow> Some (s3\<lparr>fd_stack := tl (fd_stack s3)\<rparr>))"
            using \<open>cur_nfds s > 0\<close> \<open>ev_fd ?cur = Some fd\<close> Some ev False
            by (simp add: Let_def)
          show ?thesis
            unfolding run once
            using assms Some tr2
            by (simp add: dispatch_quiet_def log_event_def
                del: uloop_run_events_while.simps uloop_fd_cb_loop.simps)
        qed
      qed
    qed
  qed
qed

lemma run_events_trace:
  assumes "dispatch_quiet e" "nat (cur_nfds s) + 1 < n" "nat ULOOP_MAX_EVENTS + 1 < n"
  shows "\<exists>s' d. uloop_run_events e n timeout s = Some s' \<and>
     trace s' = trace s @ (if cur_nfds s = 0 then [Fetch_events timeout] else []) @ d \<and>
     (d = [] \<or> (\<exists>f ev. d = [Fd_cb f ev]))"
proof (cases "cur_nfds s = 0")
  case False
  then show ?thesis
    using assms(2) run_events_while_trace [OF assms(1), of s n]
    by (auto simp add: uloop_run_events_def)
next
  case True
  obtain r s1 where f: "uloop_fetch_events e timeout
      (log_event (Fetch_events timeout) (s\<lparr>cur_fd := 0\<rparr>)) = (r, s1)"
    by (cases "uloop_fetch_events e timeout (log_event (Fetch_events timeout) (s\<lparr>cur_fd := 0\<rparr>))")
  have r: "r \<le> ULOOP_MAX_EVENTS"
    using assms(1) f unfolding dispatch_quiet_def by (metis fst_conv)
  have tr: "trace s1 = trace s @ [Fetch_events timeout]"
  proof -
    have "trace (snd (uloop_fetch_events e timeout
        (log_event (Fetch_events timeout) (s\<lparr>cur_fd := 0\<rparr>))))
      = trace (log_event (Fetch_events timeout) (s\<lparr>cur_fd := 0\<rparr>))"
      using assms(1) unfolding dispatch_quiet_def by blast
    then show ?thesis using f by (simp add: log_event_def)
  qed
  let ?s2 = "s1\<lparr>cur_nfds := (if r < 0 then 0 else r)\<rparr>"
  have run: "uloop_run_events e n timeout s = uloop_run_events_while e n ?s2"
    using True f by (simp add: uloop_run_events_def)
  have "nat r \<le> nat ULOOP_MAX_EVENTS" using r by simp
  then have "nat (cur_nfds ?s2) + 1 < n" using assms(3) by simp
  then show ?thesis
    unfolding run using run_events_while_trace [OF assms(1), of ?s2 n] tr True by auto
qed

lemma armed_state_eq:
  "timeouts armed_state = [Timeout 0]"
  "timeout_mem armed_state (Timeout 0) = \<lparr>t_pending = True, t_time = \<lparr>tv_sec = 0, tv_usec = 5000\<rparr>\<rparr>"
  "cur_nfds armed_state = 0" "trace armed_state = []" "fd_stack armed_state = []"
  "world armed_state = [[(0, 1)], [(0, 1)]]"
  "\<not> do_sigchld armed_state" "\<not> uloop_cancelled armed_state"
  "\<not> global_current_uloop_timeout_reached armed_state"
  by (simp_all add: armed_state_def uloop_timeout_set_def uloop_timeout_add_def
      uloop_gettime_def edge_env0_def quiet_env_def edge_state_def uloop_fd_add_def
      initial_state_def c_div_def c_mod_def int64_def Let_def)

lemma ready_env_quiet: "dispatch_quiet ready_env"
  by (simp add: dispatch_quiet_def ready_env_def edge_env0_eq ready_fetch_def
      ULOOP_MAX_EVENTS_def)

lemma fuel_12:
  "(12::nat) = Suc (Suc (Suc (Suc (Suc (Suc (Suc (Suc (Suc (Suc (Suc (Suc 0)))))))))))"
  by simp

text \<open>
  Claim C1 as stated fails: an iteration need not call the backend. In
  \<open>leftover_state\<close> a timeout is pending, 5 ms ahead, and one fetched event of an
  earlier batch is left, as happens whenever the backend has reported more than one
  event at once, since \<open>uloop_run_events\<close> returns after the first event that it
  hands to a callback. The iteration does not call the backend, although it has two
  batches to report: it dispatches the event that is left.
\<close>

theorem run_iteration_skips_backend:
  "timeouts leftover_state = [Timeout 0] \<and> cur_nfds leftover_state = 1 \<and>
   trace leftover_state = [] \<and> world leftover_state = [[(0, 1)], [(0, 1)]] \<and>
   map_option (\<lambda>(again, s). (again, trace s, world s, cur_nfds s))
     (uloop_run_iteration edge_env0 3 leftover_state)
   = Some (True, [Fd_cb 0 1], [[(0, 1)], [(0, 1)]], 0)"
proof -
  have left: "timeouts leftover_state = [Timeout 0]" "cur_nfds leftover_state = 1"
    "trace leftover_state = []" "world leftover_state = [[(0, 1)], [(0, 1)]]"
    by (simp_all add: leftover_state_def armed_state_eq)
  have run: "map_option (\<lambda>(again, s). (again, trace s, world s, cur_nfds s))
       (uloop_run_iteration edge_env0 3 leftover_state)
     = Some (True, [Fd_cb 0 1], [[(0, 1)], [(0, 1)]], 0)"
    by (simp add: uloop_run_iteration_def uloop_run_dispatch_def uloop_run_events_def
        uloop_gettime_def leftover_state_def armed_state_def uloop_timeout_set_def
        uloop_timeout_add_def edge_state_def uloop_fd_add_def edge_env0_def quiet_env_def
        initial_state_def c_div_def c_mod_def tv_diff_def int64_def numeral_3_eq_3 Let_def
        uloop_fd_stack_event_def log_event_def)
  show ?thesis using left run by blast
qed

text \<open>
  Claim C1, amended. In an iteration of \<open>uloop_run_timeout\<close> in which the loop is
  not cancelled and a timeout is still pending after the expired timeouts are fired,
  \<open>uloop_process_timeouts\<close> has returned the milliseconds until the deadline at the
  head of the list (\<open>tv_diff\<close> of that deadline and the sampled time, a positive
  number) and the iteration goes on with \<open>uloop_run_events\<close>, which calls the backend
  with this timeout if no fetched event is left from an earlier batch, and does not call
  it otherwise, and then hands at most one event to a callback; the iteration returns.
  Here \<open>s1\<close> is the state after the children are reaped, \<open>tv\<close> the time sampled,
  \<open>s3\<close> the state and \<open>next_time\<close> the result after the timeouts are fired. The
  backend is taken to report no more events than \<open>cur_fds\<close> holds and the callbacks
  of the watchers of file descriptors not to run the loop themselves; \<open>n\<close>, the bound
  on the iterations of the inner loops, is more than one above the number of fetched
  events that are left and above \<open>ULOOP_MAX_EVENTS\<close>. What an iteration does when no
  timeout is pending is not part of this statement.
\<close>

theorem run_iteration_dispatch:
  assumes "dispatch_quiet e"
    and "(if do_sigchld s then uloop_handle_processes e n s else Some s) = Some s1"
    and "\<not> uloop_cancelled s1"
    and "uloop_gettime e s1 = (tv, s2)"
    and "uloop_process_timeouts e n tv s2 = Some (next_time, s3)"
    and "\<not> uloop_cancelled s3"
    and "timeouts s3 \<noteq> []"
    and "nat (cur_nfds s3) + 1 < n"
    and "nat ULOOP_MAX_EVENTS + 1 < n"
  shows "\<exists>s4 d. uloop_run_iteration e n s =
        Some (\<not> uloop_cancelled s4 \<and> \<not> global_current_uloop_timeout_reached s4, s4) \<and>
      next_time = tv_diff (deadline s3 (hd (timeouts s3))) tv \<and> next_time > 0 \<and>
      trace s4 = trace s3 @ (if cur_nfds s3 = 0 then [Fetch_events next_time] else []) @ d \<and>
      (d = [] \<or> (\<exists>f ev. d = [Fd_cb f ev]))"
proof -
  have next_time: "next_time > 0" "next_time = tv_diff (deadline s3 (hd (timeouts s3))) tv"
    using process_timeouts_result [OF assms(5)] assms(7) by auto
  obtain s4 d where run: "uloop_run_events e n next_time s3 = Some s4"
    and tr: "trace s4 = trace s3 @ (if cur_nfds s3 = 0 then [Fetch_events next_time] else []) @ d"
      "d = [] \<or> (\<exists>f ev. d = [Fd_cb f ev])"
    using run_events_trace [OF assms(1,8,9), of next_time] by blast
  have "uloop_run_iteration e n s =
      Some (\<not> uloop_cancelled s4 \<and> \<not> global_current_uloop_timeout_reached s4, s4)"
    using assms(2,3,4,5,6) next_time(1) run
    by (simp add: uloop_run_iteration_def uloop_run_dispatch_def)
  then show ?thesis using next_time tr by blast
qed

theorem run_iteration_dispatch_witness:
  "dispatch_quiet ready_env \<and>
   \<not> do_sigchld armed_state \<and> \<not> uloop_cancelled armed_state \<and>
   uloop_gettime ready_env armed_state = (time_0, armed_state) \<and>
   uloop_process_timeouts ready_env 12 time_0 armed_state = Some (5, armed_state) \<and>
   timeouts armed_state = [Timeout 0] \<and>
   tv_diff (deadline armed_state (Timeout 0)) time_0 = 5 \<and>
   cur_nfds armed_state = 0 \<and> trace armed_state = [] \<and>
   map_option (\<lambda>(again, s). (again, trace s))
     (uloop_run_iteration ready_env 12 armed_state)
     = Some (True, [Fetch_events 5, Fd_cb 0 1]) \<and>
   (\<exists>s4 d. uloop_run_iteration ready_env 12 armed_state =
        Some (\<not> uloop_cancelled s4 \<and> \<not> global_current_uloop_timeout_reached s4, s4) \<and>
      trace s4 = [Fetch_events 5] @ d \<and> (d = [] \<or> (\<exists>f ev. d = [Fd_cb f ev])))"
proof -
  have five: "tv_diff (deadline armed_state (Timeout 0)) time_0 = 5"
    by (simp add: deadline_def armed_state_eq time_0_def tv_diff_def c_div_def int64_def)
  have clock: "uloop_gettime ready_env armed_state = (time_0, armed_state)"
    by (simp add: uloop_gettime_def ready_env_def edge_env0_def quiet_env_def time_0_def
        c_div_def)
  have pt: "uloop_process_timeouts ready_env 12 time_0 armed_state = Some (5, armed_state)"
    using five by (simp add: fuel_12 armed_state_eq deadline_def)
  have buffer: "nat (cur_nfds armed_state) + 1 < 12" "nat ULOOP_MAX_EVENTS + 1 < 12"
    by (simp_all add: armed_state_eq ULOOP_MAX_EVENTS_def)
  have reap: "(if do_sigchld armed_state then uloop_handle_processes ready_env 12 armed_state
      else Some armed_state) = Some armed_state"
    by (simp add: armed_state_eq)
  have disp: "map_option (\<lambda>s. (uloop_cancelled s, global_current_uloop_timeout_reached s, trace s))
      (uloop_run_dispatch ready_env 12 5 armed_state)
      = Some (False, False, [Fetch_events 5, Fd_cb 0 1])"
    by (simp add: uloop_run_dispatch_def uloop_run_events_def armed_state_eq ready_env_def
        edge_env0_eq ready_fetch_def log_event_def fuel_12 Let_def uloop_fd_stack_event_def)
  have run: "map_option (\<lambda>(again, s). (again, trace s))
      (uloop_run_iteration ready_env 12 armed_state) = Some (True, [Fetch_events 5, Fd_cb 0 1])"
    using disp
    by (auto simp add: uloop_run_iteration_def clock pt armed_state_eq(7,8) split: option.splits)
  have "\<exists>s4 d. uloop_run_iteration ready_env 12 armed_state =
        Some (\<not> uloop_cancelled s4 \<and> \<not> global_current_uloop_timeout_reached s4, s4) \<and>
      5 = tv_diff (deadline armed_state (hd (timeouts armed_state))) time_0 \<and> (5::int) > 0 \<and>
      trace s4 = trace armed_state @
        (if cur_nfds armed_state = 0 then [Fetch_events 5] else []) @ d \<and>
      (d = [] \<or> (\<exists>f ev. d = [Fd_cb f ev]))"
    using run_iteration_dispatch [OF ready_env_quiet reap armed_state_eq(8) clock pt
        armed_state_eq(8) _ buffer]
    by (simp add: armed_state_eq)
  then have "\<exists>s4 d. uloop_run_iteration ready_env 12 armed_state =
        Some (\<not> uloop_cancelled s4 \<and> \<not> global_current_uloop_timeout_reached s4, s4) \<and>
      trace s4 = [Fetch_events 5] @ d \<and> (d = [] \<or> (\<exists>f ev. d = [Fd_cb f ev]))"
    by (simp add: armed_state_eq) blast
  then show ?thesis
    using ready_env_quiet armed_state_eq(1,3,4,7,8) five clock pt run by blast
qed

section \<open>The timer of uloop_run_timeout\<close>

lemma timer_fired_append [simp]:
  "timer_fired g (tr @ tr') = (timer_fired g tr \<or> timer_fired g tr')"
  by (simp add: timer_fired_def)

lemma timer_fired_single [simp]:
  "timer_fired g [Timeout_cb t a b] = (t = g)"
  "timer_fired g [Process_cb p r] = False"
  "timer_fired g [Fd_cb f ev] = False"
  "timer_fired g [Fetch_events x] = False"
  by (simp_all add: timer_fired_def)

lemma timer_held_same:
  "timeouts s' = timeouts s \<Longrightarrow> timeout_mem s' = timeout_mem s \<Longrightarrow> trace s' = trace s \<Longrightarrow>
   timer_held g s' = timer_held g s"
  by (simp add: timer_held_def)

lemma timer_held_cancel:
  "timer_held g s \<Longrightarrow> t \<noteq> g \<Longrightarrow> timer_held g (snd (uloop_timeout_cancel s t))"
  by (auto simp add: timer_held_def uloop_timeout_cancel_def list_del_def)

lemma timer_held_log:
  "timer_held g s \<Longrightarrow> timer_held g (log_event ev s)"
  by (auto simp add: timer_held_def log_event_def)

lemma timer_held_log_fired:
  "timer_held g (log_event (Timeout_cb g a b) s)"
  by (simp add: timer_held_def log_event_def)

lemma timer_held_handle [simp]:
  "timer_held g (handle_global_timeout s) = timer_held g s"
  by (simp add: timer_held_def handle_global_timeout_def)

lemma process_timeouts_held:
  assumes "env_keeps e (timer_held g)" and g: "g = Global_timer d"
  shows "timer_held g s \<Longrightarrow> uloop_process_timeouts e n tv s = Some (r, s') \<Longrightarrow> timer_held g s'"
proof (induction n arbitrary: s)
  case 0
  then show ?case by simp
next
  case (Suc n)
  show ?case
  proof (cases "timeouts s")
    case Nil
    then show ?thesis using Suc.prems by simp
  next
    case (Cons t rest)
    show ?thesis
    proof (cases "tv_diff (t_time (timeout_mem s t)) tv > 0")
      case True
      then show ?thesis using Suc.prems Cons by simp
    next
      case False
      let ?s1 = "snd (uloop_timeout_cancel s t)"
      let ?lg = "log_event (Timeout_cb t (t_pending (timeout_mem ?s1 t)) (t \<in> set (timeouts ?s1))) ?s1"
      show ?thesis
      proof (cases "timeout_cb_of e t")
        case None
        then have "t \<noteq> g"
          using g by (auto simp add: timeout_cb_of_def)
        then have "timer_held g ?s1"
          using Suc.prems(1) by (rule timer_held_cancel [rotated])
        then show ?thesis
          using Suc.prems(2) Cons \<open>\<not> tv_diff (t_time (timeout_mem s t)) tv > 0\<close> None Suc.IH [of ?s1]
          by (simp add: Let_def)
      next
        case (Some cb)
        have lg: "timer_held g ?lg"
        proof (cases "t = g")
          case True
          then show ?thesis by (simp add: timer_held_log_fired)
        next
          case False
          then show ?thesis
            using Suc.prems(1) by (intro timer_held_log timer_held_cancel)
        qed
        have "timer_held g (cb ?lg)"
        proof (cases t)
          case (Timeout k)
          then show ?thesis
            using Some lg assms by (simp add: timeout_cb_of_def env_keeps_def)
        next
          case (Global_timer d)
          then show ?thesis
            using Some lg by (auto simp add: timeout_cb_of_def)
        qed
        then show ?thesis
          using Suc.prems(2) Cons \<open>\<not> tv_diff (t_time (timeout_mem s t)) tv > 0\<close> Some Suc.IH [of "cb ?lg"]
          by (simp add: Let_def)
      qed
    qed
  qed
qed

lemma timer_held_process_delete [simp]:
  "timer_held g (snd (uloop_process_delete s p)) = timer_held g s"
  by (simp add: uloop_process_delete_def timer_held_def)

lemma timer_held_world [simp]: "timer_held g (s\<lparr>world := w\<rparr>) = timer_held g s"
  by (simp add: timer_held_def)

lemma timer_held_do_sigchld [simp]: "timer_held g (s\<lparr>do_sigchld := b\<rparr>) = timer_held g s"
  by (simp add: timer_held_def)

lemma timer_held_fd_stack [simp]: "timer_held g (s\<lparr>fd_stack := st\<rparr>) = timer_held g s"
  by (simp add: timer_held_def)

lemma timer_held_cur [simp]:
  "timer_held g (s\<lparr>cur_fd := i\<rparr>) = timer_held g s"
  "timer_held g (s\<lparr>cur_nfds := k\<rparr>) = timer_held g s"
  by (simp_all add: timer_held_def)

lemma timer_held_flags [simp]:
  "timer_held g (s\<lparr>global_current_uloop_timeout_reached := b\<rparr>) = timer_held g s"
  "timer_held g (s\<lparr>uloop_status := k\<rparr>) = timer_held g s"
  "timer_held g (s\<lparr>uloop_run_depth := k\<rparr>) = timer_held g s"
  by (simp_all add: timer_held_def)

lemma process_walk_held:
  assumes "env_keeps e (timer_held g)"
  shows "timer_held g s \<Longrightarrow> process_walk e n pid ret p s = Some s' \<Longrightarrow> timer_held g s'"
proof (induction n arbitrary: p s)
  case 0
  then show ?case by simp
next
  case (Suc n)
  show ?case
  proof (cases p)
    case None
    then show ?thesis using Suc.prems by simp
  next
    case (Some q)
    let ?s2 = "process_cb e q ret (log_event (Process_cb q ret) (snd (uloop_process_delete s q)))"
    have held2: "timer_held g ?s2"
      using assms Suc.prems(1) by (simp add: env_keeps_def timer_held_log)
    show ?thesis
      using Suc.prems Some held2 Suc.IH [of s] Suc.IH [of ?s2]
      by (auto simp add: Let_def split: if_splits)
  qed
qed

lemma handle_processes_loop_held:
  assumes "env_keeps e (timer_held g)"
  shows "timer_held g s \<Longrightarrow> uloop_handle_processes_loop e n s = Some s' \<Longrightarrow> timer_held g s'"
proof (induction n arbitrary: s)
  case 0
  then show ?case by simp
next
  case (Suc n)
  obtain pid ret eintr w where wp: "sys_waitpid e (world s) = ((pid, ret, eintr), w)"
    by (metis prod.exhaust)
  let ?s1 = "s\<lparr>world := w\<rparr>"
  have h1: "timer_held g ?s1" using Suc.prems(1) by simp
  show ?case
  proof (cases "pid < 0 \<and> eintr")
    case True
    then show ?thesis using Suc.prems(2) wp Suc.IH [OF h1] by simp
  next
    case False
    show ?thesis
    proof (cases "pid \<le> 0")
      case True
      then show ?thesis using Suc.prems(2) wp False h1 by auto
    next
      case pos: False
      then obtain s2 where walk: "process_walk e n pid ret (list_first (processes ?s1)) ?s1 = Some s2"
        and rest: "uloop_handle_processes_loop e n s2 = Some s'"
        using Suc.prems(2) wp False by (auto simp add: Let_def split: option.splits)
      have "timer_held g s2" using process_walk_held [OF assms h1 walk] .
      then show ?thesis using Suc.IH rest by blast
    qed
  qed
qed

lemma fd_stack_event_held [simp]:
  "timer_held g (snd (uloop_fd_stack_event e s f ev)) = timer_held g s"
  by (simp add: uloop_fd_stack_event_def split: prod.splits)

lemma fd_cb_loop_held:
  assumes "env_keeps e (timer_held g)" "fd_cb e f = Some cb"
  shows "timer_held g s \<Longrightarrow> uloop_fd_cb_loop e n f cb ev s = Some s' \<Longrightarrow> timer_held g s'"
proof (induction n arbitrary: s ev)
  case 0
  then show ?case by simp
next
  case (Suc n)
  from Suc.prems(2) obtain fr rest where st: "fd_stack s = fr # rest"
    by (cases "fd_stack s") auto
  let ?s1 = "cb ev (log_event (Fd_cb f ev) (s\<lparr>fd_stack := fr\<lparr>sf_events := 0\<rparr> # rest\<rparr>))"
  have h1: "timer_held g ?s1"
    using assms Suc.prems(1) by (simp add: env_keeps_def timer_held_log)
  show ?case
    using Suc.prems(2) st h1 Suc.IH [of ?s1]
    by (auto simp add: Let_def split: list.splits if_splits)
qed

lemma run_events_while_held:
  assumes "env_keeps e (timer_held g)"
  shows "timer_held g s \<Longrightarrow> uloop_run_events_while e n s = Some s' \<Longrightarrow> timer_held g s'"
proof (induction n arbitrary: s)
  case 0
  then show ?case by simp
next
  case (Suc n)
  let ?cur = "cur_fds s (cur_fd s)"
  let ?s1 = "s\<lparr>cur_fd := cur_fd s + 1, cur_nfds := cur_nfds s - 1\<rparr>"
  have h1: "timer_held g ?s1" using Suc.prems(1) by simp
  show ?case
  proof (cases "cur_nfds s > 0")
    case False
    then show ?thesis using Suc.prems by simp
  next
    case True
    show ?thesis
    proof (cases "ev_fd ?cur")
      case None
      then show ?thesis using Suc.prems(2) True Suc.IH [OF h1] by (simp add: Let_def)
    next
      case (Some fd)
      show ?thesis
      proof (cases "fd_cb e fd")
        case None
        then show ?thesis using Suc.prems(2) True Some Suc.IH [OF h1] by (simp add: Let_def)
      next
        case cb: (Some cb)
        obtain b s2 where ev: "uloop_fd_stack_event e ?s1 fd (ev_events ?cur) = (b, s2)"
          by (cases "uloop_fd_stack_event e ?s1 fd (ev_events ?cur)")
        have "timer_held g (snd (uloop_fd_stack_event e ?s1 fd (ev_events ?cur)))"
          using h1 by simp
        then have h2: "timer_held g s2" unfolding ev by simp
        show ?thesis
        proof (cases b)
          case True
          then show ?thesis
            using Suc.prems(2) \<open>cur_nfds s > 0\<close> Some cb ev Suc.IH [OF h2] by (simp add: Let_def)
        next
          case False
          let ?s3 = "s2\<lparr>fd_stack := \<lparr>sf_fd = Some fd, sf_events = 0\<rparr> # fd_stack s2\<rparr>"
          from Suc.prems(2) obtain s4 where
            loop: "uloop_fd_cb_loop e n fd cb (ev_events ?cur) ?s3 = Some s4"
            and s': "s' = s4\<lparr>fd_stack := tl (fd_stack s4)\<rparr>"
            using \<open>cur_nfds s > 0\<close> Some cb ev False
            by (auto simp add: Let_def split: option.splits)
          have "timer_held g s4"
            using fd_cb_loop_held [OF assms cb _ loop] h2 by simp
          then show ?thesis using s' by simp
        qed
      qed
    qed
  qed
qed

lemma run_events_held:
  assumes "env_keeps e (timer_held g)" "timer_held g s" "uloop_run_events e n timeout s = Some s'"
  shows "timer_held g s'"
proof (cases "cur_nfds s = 0")
  case False
  then show ?thesis
    using assms run_events_while_held [OF assms(1), of s n s']
    by (simp add: uloop_run_events_def)
next
  case True
  let ?s0 = "log_event (Fetch_events timeout) (s\<lparr>cur_fd := 0\<rparr>)"
  obtain r s1 where f: "uloop_fetch_events e timeout ?s0 = (r, s1)"
    by (cases "uloop_fetch_events e timeout ?s0")
  have "timer_held g ?s0" using assms(2) by (simp add: timer_held_log)
  then have "timer_held g (snd (uloop_fetch_events e timeout ?s0))"
    using assms(1) unfolding env_keeps_def by blast
  then have h1: "timer_held g (s1\<lparr>cur_nfds := (if r < 0 then 0 else r)\<rparr>)"
    using f by simp
  have "uloop_run_events_while e n (s1\<lparr>cur_nfds := (if r < 0 then 0 else r)\<rparr>) = Some s'"
    using assms(3) True f by (simp add: uloop_run_events_def)
  then show ?thesis
    using run_events_while_held [OF assms(1) h1] by simp
qed

lemma run_iteration_held:
  assumes "env_keeps e (timer_held g)" "g = Global_timer d" "timer_held g s"
    "uloop_run_iteration e n s = Some (again, s')"
  shows "timer_held g s'"
proof -
  obtain s1 where s1: "(if do_sigchld s then uloop_handle_processes e n s else Some s) = Some s1"
    using assms(4) by (auto simp add: uloop_run_iteration_def split: option.splits)
  have h1: "timer_held g s1"
  proof (cases "do_sigchld s")
    case True
    then have "uloop_handle_processes_loop e n (s\<lparr>do_sigchld := False\<rparr>) = Some s1"
      using s1 by (simp add: uloop_handle_processes_def)
    then show ?thesis
      using handle_processes_loop_held [OF assms(1), of "s\<lparr>do_sigchld := False\<rparr>"] assms(3)
      by simp
  next
    case False
    then show ?thesis using s1 assms(3) by simp
  qed
  show ?thesis
  proof (cases "uloop_cancelled s1")
    case True
    then show ?thesis using assms(4) s1 h1 by (simp add: uloop_run_iteration_def)
  next
    case False
    obtain tv s2 where g2: "uloop_gettime e s1 = (tv, s2)" by (cases "uloop_gettime e s1")
    obtain w where "s2 = s1\<lparr>world := w\<rparr>"
      using g2 by (auto simp add: uloop_gettime_def split: prod.splits)
    then have h2: "timer_held g s2" using h1 by simp
    obtain next_time s3 where pt: "uloop_process_timeouts e n tv s2 = Some (next_time, s3)"
      using assms(4) s1 False g2 by (auto simp add: uloop_run_iteration_def split: option.splits)
    have h3: "timer_held g s3"
      using process_timeouts_held [OF assms(1,2) h2 pt] .
    show ?thesis
    proof (cases "uloop_cancelled s3")
      case True
      then show ?thesis
        using assms(4) s1 False g2 pt h3 by (simp add: uloop_run_iteration_def)
    next
      case nc: False
      then have disp: "uloop_run_dispatch e n next_time s3 = Some s'"
        using assms(4) s1 False g2 pt
        by (auto simp add: uloop_run_iteration_def split: option.splits)
      show ?thesis
      proof (cases "next_time \<ge> 0")
        case True
        then show ?thesis
          using disp run_events_held [OF assms(1) h3] by (simp add: uloop_run_dispatch_def)
      next
        case False
        then show ?thesis using disp h3 by (simp add: uloop_run_dispatch_def)
      qed
    qed
  qed
qed

lemma run_timeout_loop_held:
  assumes "env_keeps e (timer_held g)" "g = Global_timer d"
  shows "timer_held g s \<Longrightarrow> uloop_run_timeout_loop e n s = Some s' \<Longrightarrow> timer_held g s'"
proof (induction n arbitrary: s)
  case 0
  then show ?case by simp
next
  case (Suc n)
  from Suc.prems(2) obtain again s1 where it: "uloop_run_iteration e n s = Some (again, s1)"
    by (auto split: option.splits)
  have h1: "timer_held g s1"
    using run_iteration_held [OF assms Suc.prems(1) it] .
  show ?case
    using Suc.prems(2) it h1 Suc.IH [of s1] by (auto split: if_splits)
qed

lemma timeout_set_registers:
  assumes "\<not> t_pending (timeout_mem s g)"
  shows "t_pending (timeout_mem (snd (uloop_timeout_set e s g msecs)) g) \<and>
         g \<in> set (timeouts (snd (uloop_timeout_set e s g msecs)))"
  using assms
  by (simp add: uloop_timeout_set_def uloop_timeout_add_def uloop_gettime_def Let_def
      set_list_add_before split: prod.splits)

text \<open>
  Claim C10. \<open>uloop_run_timeout\<close> is called with a timeout that is not negative; its
  local timer \<open>g\<close> is not pending on entry, so that \<open>uloop_timeout_set\<close> links it;
  the call returns, and the callback of \<open>g\<close> has not run: the loop has ended because
  it was cancelled. Then \<open>g\<close> is still pending and still linked in the timeout list
  when the call has returned. The callbacks and the backend are taken to leave \<open>g\<close>
  held: none of them unlinks it or drops its callback from the log.
\<close>

theorem cancelled_run_leaves_timer_linked:
  assumes "0 \<le> timeout"
    and "g = Global_timer (uloop_run_depth s + 1)"
    and "\<not> t_pending (timeout_mem s g)"
    and "env_keeps e (timer_held g)"
    and "uloop_run_timeout e n timeout s = Some (status, s')"
    and "\<not> timer_fired g (trace s')"
  shows "t_pending (timeout_mem s' g) \<and> g \<in> set (timeouts s')"
proof -
  let ?s1 = "s\<lparr>uloop_run_depth := uloop_run_depth s + 1\<rparr>"
  let ?s2 = "snd (uloop_timeout_set e ?s1 g timeout)"
  let ?s3 = "?s2\<lparr>uloop_status := 0, global_current_uloop_timeout_reached := False\<rparr>"
  have "t_pending (timeout_mem ?s2 g) \<and> g \<in> set (timeouts ?s2)"
    using assms(3) by (intro timeout_set_registers) simp
  then have h3: "timer_held g ?s3" by (simp add: timer_held_def)
  obtain s4 where loop: "uloop_run_timeout_loop e n ?s3 = Some s4"
    and s': "s' = s4\<lparr>global_current_uloop_timeout_reached := False,
                      uloop_run_depth := uloop_run_depth s4 - 1\<rparr>"
    using assms(1,2,5) by (auto simp add: uloop_run_timeout_def Let_def split: option.splits)
  have "timer_held g s4"
    using run_timeout_loop_held [OF assms(4,2) h3 loop] .
  then have "timer_held g s'" using s' by simp
  then show ?thesis using assms(6) by (simp add: timer_held_def)
qed

theorem cancelled_run_leaves_timer_linked_witness:
  "uloop_run_depth busy_state + 1 = 1 \<and>
   \<not> t_pending (timeout_mem busy_state (Global_timer 1)) \<and>
   env_keeps cancel_env (timer_held (Global_timer 1)) \<and>
   (\<exists>s'. uloop_run_timeout cancel_env 3 1000 busy_state = Some (0, s') \<and>
      uloop_cancelled s' \<and>
      trace s' = [Timeout_cb (Timeout 0) False False] \<and>
      \<not> timer_fired (Global_timer 1) (trace s') \<and>
      timeouts s' = [Global_timer 1] \<and>
      t_pending (timeout_mem s' (Global_timer 1)) \<and>
      Global_timer 1 \<in> set (timeouts s'))"
proof -
  have depth: "uloop_run_depth busy_state + 1 = 1"
    and np: "\<not> t_pending (timeout_mem busy_state (Global_timer 1))"
    by (simp_all add: busy_state_def initial_state_def quiet_env_def uloop_timeout_add_def
        uloop_process_add_def uloop_signal_add_def sigaction_get_def sigaction_set_def Let_def)
  have keeps: "env_keeps cancel_env (timer_held (Global_timer 1))"
    by (simp add: env_keeps_def cancel_env_def quiet_env_def timer_held_def)
  have run: "map_option (\<lambda>(r, s). (r, uloop_cancelled s, trace s, timeouts s))
      (uloop_run_timeout cancel_env 3 1000 busy_state)
     = Some (0, True, [Timeout_cb (Timeout 0) False False], [Global_timer 1])"
    by (simp add: uloop_run_timeout_def uloop_run_iteration_def uloop_run_dispatch_def
        uloop_timeout_set_def uloop_timeout_add_def uloop_timeout_cancel_def uloop_gettime_def
        busy_state_def initial_state_def cancel_env_def quiet_env_def uloop_process_add_def
        uloop_signal_add_def sigaction_get_def sigaction_set_def numeral_3_eq_3 Let_def
        tv_diff_def c_div_def c_mod_def int64_def timeout_cb_of_def list_del_def
        log_event_def)
  then obtain s' where s': "uloop_run_timeout cancel_env 3 1000 busy_state = Some (0, s')"
    "uloop_cancelled s'" "trace s' = [Timeout_cb (Timeout 0) False False]"
    "timeouts s' = [Global_timer 1]"
    by auto
  have nf: "\<not> timer_fired (Global_timer 1) (trace s')"
    using s'(3) by simp
  have "t_pending (timeout_mem s' (Global_timer 1)) \<and> Global_timer 1 \<in> set (timeouts s')"
    using cancelled_run_leaves_timer_linked
      [of 1000 "Global_timer 1" busy_state cancel_env 3 0 s'] depth np keeps s'(1) nf
    by simp
  then show ?thesis
    using depth np keeps s' nf by blast
qed

end
